theory Spec2Isabelle
  imports Main "HOL-Library.Word" "HOL-Library.Signed_Division"
begin

unbundle bit_operations_syntax

section \<open>Scores, moves and the constants of the engine\<close>

text \<open>
  \<open>Score\<close> is a 32-bit signed enum in the engine. Every score the search handles lies
  between \<open>-VALUE_NONE\<close> and \<open>VALUE_NONE\<close> and every ply below \<open>MAX_PLY\<close>, far from the
  32-bit limits, so scores are modelled as unbounded integers. Division on them is C++
  division, which truncates towards zero: \<open>sdiv\<close>.

  The header that declares the score constants is not among the sources. The functions
  below take them from a record, so every theorem holds for whatever values the header
  gives; where a theorem needs a relation between two constants it says so.
\<close>

type_synonym Score = int
type_synonym Move = nat
type_synonym Square = nat
type_synonym Piece = nat
type_synonym PieceType = nat

datatype Color = White | Black

fun opp :: "Color \<Rightarrow> Color" where
  "opp White = Black"
| "opp Black = White"

datatype Flag = NONEBOUND | UPPERBOUND | LOWERBOUND | EXACTBOUND

datatype Result = NONE | DRAWN | LOST

datatype Node = Root | PV | NonPV

datatype WDL = TB_LOSS | TB_BLESSED_LOSS | TB_DRAW | TB_CURSED_WIN | TB_WIN | TB_FAILED

record config =
  MAX_PLY :: int
  VALUE_MATE :: Score
  VALUE_INFINITE :: Score
  VALUE_NONE :: Score
  VALUE_MATE_IN_PLY :: Score
  VALUE_MATED_IN_PLY :: Score
  VALUE_TB_WIN :: Score
  VALUE_TB_LOSS :: Score
  VALUE_TB_WIN_IN_MAX_PLY :: Score
  VALUE_TB_LOSS_IN_MAX_PLY :: Score
  NULL_MOVE :: Move
  None_piece :: Piece
  NONETYPE :: PieceType
  piece_values_EG :: "PieceType \<Rightarrow> int"
  from_sq :: "Move \<Rightarrow> Square"
  to_sq :: "Move \<Rightarrow> Square"
  promoted :: "Move \<Rightarrow> bool"
  type_of_piece :: "Piece \<Rightarrow> PieceType"
  flag_bits :: "Flag \<Rightarrow> nat"

text \<open>
  \<open>NO_MOVE\<close> is the move the code tests with \<open>!excludedMove\<close> and assigns with
  \<open>excludedMove = NO_MOVE\<close>: the zero of the move type.
\<close>

definition NO_MOVE :: Move where
  "NO_MOVE = 0"

text \<open>A configuration on which the theorems below are evaluated.\<close>

definition sample_config :: config where
  "sample_config =
     \<lparr>MAX_PLY = 120, VALUE_MATE = 32000, VALUE_INFINITE = 32001, VALUE_NONE = 32002,
      VALUE_MATE_IN_PLY = 31880, VALUE_MATED_IN_PLY = - 31880,
      VALUE_TB_WIN = 31880, VALUE_TB_LOSS = - 31880,
      VALUE_TB_WIN_IN_MAX_PLY = 31760, VALUE_TB_LOSS_IN_MAX_PLY = - 31760,
      NULL_MOVE = 65, None_piece = 12, NONETYPE = 6,
      piece_values_EG = (\<lambda>t. [94, 281, 297, 512, 936, 0, 0] ! min t 6),
      from_sq = (\<lambda>m. (m div 64) mod 64), to_sq = (\<lambda>m. m mod 64),
      promoted = (\<lambda>m. 4096 \<le> m),
      type_of_piece = (\<lambda>p. if p = 12 then 6 else p mod 6),
      flag_bits = (\<lambda>f. case f of NONEBOUND \<Rightarrow> 0 | UPPERBOUND \<Rightarrow> 1 | LOWERBOUND \<Rightarrow> 2 | EXACTBOUND \<Rightarrow> 3)\<rparr>"

definition mate_in :: "config \<Rightarrow> int \<Rightarrow> Score" where
  "mate_in K ply = VALUE_MATE K - ply"

definition mated_in :: "config \<Rightarrow> int \<Rightarrow> Score" where
  "mated_in K ply = - VALUE_MATE K + ply"

text \<open>
  Modelled from the spec: \<open>scoreToTT\<close> and \<open>scoreFromTT\<close> are declared in the
  transposition-table header, which is not among the sources. The spec gives
  \<open>scoreToTT(s, ply)\<close>: if \<open>s >= MATE_IN_MAX_PLY\<close> return \<open>s + ply\<close>; if
  \<open>s <= MATED_IN_MAX_PLY\<close> return \<open>s - ply\<close>; else \<open>s\<close>.
\<close>

definition scoreToTT :: "config \<Rightarrow> Score \<Rightarrow> int \<Rightarrow> Score" where
  "scoreToTT K s plies =
     (if s \<ge> VALUE_MATE_IN_PLY K then s + plies
      else if s \<le> VALUE_MATED_IN_PLY K then s - plies
      else s)"

text \<open>
  Modelled from the spec: \<open>scoreFromTT\<close> "is the inverse", and "after load, subtract
  ply, provided the score is in the mate-distance ranges": the same two tests, with the
  ply taken off a win and put back on a loss.
\<close>

definition scoreFromTT :: "config \<Rightarrow> Score \<Rightarrow> int \<Rightarrow> Score" where
  "scoreFromTT K s plies =
     (if s \<ge> VALUE_MATE_IN_PLY K then s - plies
      else if s \<le> VALUE_MATED_IN_PLY K then s + plies
      else s)"

section \<open>The UCI score formatter (helper.cpp)\<close>

text \<open>\<open>std::to_string\<close> on an \<open>int\<close>: decimal digits, with a minus sign.\<close>

definition digit_char :: "nat \<Rightarrow> char" where
  "digit_char n = ''0123456789'' ! n"

fun digits :: "nat \<Rightarrow> string" where
  "digits n = (if n < 10 then [digit_char n] else digits (n div 10) @ [digit_char (n mod 10)])"

declare digits.simps [simp del]

definition to_string :: "int \<Rightarrow> string" where
  "to_string i = (if i < 0 then CHR ''-'' # digits (nat (- i)) else digits (nat i))"

definition outputScore :: "config \<Rightarrow> int \<Rightarrow> string" where
  "outputScore K score0 =
     (let score = (if \<bar>score0\<bar> \<le> 4 then 0 else score0) in
      if score \<ge> VALUE_MATE_IN_PLY K then
        ''mate '' @ to_string (((VALUE_MATE K - score) sdiv 2) + ((VALUE_MATE K - score) AND 1))
      else if score \<le> VALUE_MATED_IN_PLY K then
        ''mate '' @ to_string (- ((VALUE_MATE K + score) sdiv 2) + ((VALUE_MATE K + score) AND 1))
      else ''cp '' @ to_string score)"

section \<open>The search state (search.cpp)\<close>

text \<open>
  A stack frame. \<open>iterativeDeepening\<close> sets \<open>(ss + i)->ply = i\<close> once and nothing writes
  the field again, so the index of a frame stands for its \<open>ply\<close>.
\<close>

record Stack =
  currentmove :: Move
  eval :: Score
  excludedMove :: Move

text \<open>The fields of a transposition-table entry that the search reads.\<close>

record TEntry =
  e_score :: Score
  e_depth :: int
  e_flag :: Flag

text \<open>
  One call of \<open>TTable.storeEntry\<close>: its five arguments, and the value the shared stop
  flag had when the call was made.
\<close>

record tt_write =
  w_depth :: int
  w_score :: Score
  w_flag :: Flag
  w_key :: "64 word"
  w_move :: Move
  w_stopped :: bool

record Limits =
  l_depth :: int
  l_nodes :: "64 word"
  optimum :: int
  maximum :: int

datatype uci_line =
    Currmove int Move int
  | Info string
  | Bestmove Move

text \<open>
  The state one worker's search reads and writes: the members of \<open>Search\<close>, its stack
  frames, and the process-wide objects it shares (\<open>stopped\<close>, the transposition table).
  The table's code is not among the sources: it is kept as the list of the calls of
  \<open>storeEntry\<close>, and a probe is a function of that list. What the rest of the process
  does to the worker is read from two lists: \<open>stop_oracle\<close> says, at each point where
  the other threads are given their turn, whether one of them has set the flag since the
  turn before, and \<open>clock\<close> holds the milliseconds the successive calls of \<open>getTime\<close>
  return. \<open>stopped\<close> is the shared flag itself, not a copy of the worker's.
\<close>

record search =
  worker_id :: int
  normalSearch :: bool
  useTB :: bool
  nodes :: "64 word"
  tbhits :: "64 word"
  seldepth :: int
  limit :: Limits
  searchmoves :: "Move list"
  checkTime :: int
  pvTable :: "int \<Rightarrow> int \<Rightarrow> Move"
  pvLength :: "int \<Rightarrow> int"
  killerMoves :: "nat \<Rightarrow> int \<Rightarrow> Move"
  history :: "Color \<Rightarrow> Square \<Rightarrow> Square \<Rightarrow> int"
  spentEffort :: "Square \<Rightarrow> Square \<Rightarrow> 64 word"
  stack :: "int \<Rightarrow> Stack"
  stopped :: bool
  stop_oracle :: "bool list"
  clock :: "int list"
  tt_log :: "tt_write list"
  out :: "uci_line list"

text \<open>
  The board, the evaluation network, the tablebases, the move picker, the reduction
  table and the thread pool's counters are outside the sources: the search takes them
  as the operations it calls.
  \<open>nnue_scaled\<close> is the network's output after the floating-point scaling by the
  half-move clock in \<open>Eval::evaluation\<close>, truncated to an \<open>int\<close>. The two pickers give
  the moves \<open>nextMove\<close> returns, in order; the search stops at the first \<open>NO_MOVE\<close>.
\<close>

record 'b env =
  cfg :: config
  sideToMove :: "'b \<Rightarrow> Color"
  KingSQ :: "'b \<Rightarrow> Color \<Rightarrow> Square"
  isSquareAttacked :: "'b \<Rightarrow> Color \<Rightarrow> Square \<Rightarrow> bool"
  isRepetition :: "'b \<Rightarrow> int \<Rightarrow> bool"
  isDrawn :: "'b \<Rightarrow> bool \<Rightarrow> Result"
  hashKey :: "'b \<Rightarrow> 64 word"
  pieceAtB :: "'b \<Rightarrow> Square \<Rightarrow> Piece"
  nonPawnMat :: "'b \<Rightarrow> Color \<Rightarrow> bool"
  see :: "'b \<Rightarrow> Move \<Rightarrow> int \<Rightarrow> bool"
  makeMove :: "'b \<Rightarrow> Move \<Rightarrow> 'b"
  makeNullMove :: "'b \<Rightarrow> 'b"
  nnue_scaled :: "'b \<Rightarrow> int"
  piece_count :: "'b \<Rightarrow> int"
  TB_LARGEST :: int
  tb_probe_wdl :: "'b \<Rightarrow> WDL"
  probeTT :: "tt_write list \<Rightarrow> 64 word \<Rightarrow> bool \<times> Move \<times> TEntry"
  qsearch_picker :: "'b \<Rightarrow> search \<Rightarrow> int \<Rightarrow> Move \<Rightarrow> bool \<Rightarrow> Move list"
  absearch_picker :: "'b \<Rightarrow> search \<Rightarrow> int \<Rightarrow> bool \<Rightarrow> Move \<Rightarrow> bool \<Rightarrow> Move list"
  reductions :: "int \<Rightarrow> int \<Rightarrow> int"
  getNodes :: "search \<Rightarrow> 64 word"
  getTbHits :: "search \<Rightarrow> 64 word"
  hashfull :: "tt_write list \<Rightarrow> int"
  uciMove :: "Move \<Rightarrow> string"

section \<open>Reading the clock and the stop flag; the limits\<close>

text \<open>\<open>stopped.load()\<close>: a stop another thread has published is seen from here on.\<close>

definition load_stopped :: "search \<Rightarrow> bool \<times> search" where
  "load_stopped st =
     (case stop_oracle st of
        [] \<Rightarrow> (stopped st, st)
      | x # xs \<Rightarrow> (stopped st \<or> x, st\<lparr>stopped := stopped st \<or> x, stop_oracle := xs\<rparr>))"

text \<open>
  Another thread may raise the flag at any time, not only when the worker loads it. The
  guarded stores of the search load the flag and store in one statement; the tablebase
  store of \<open>absearch\<close> comes after the probe of the tablebase files, with no load since
  the limit check at the top of the node. \<open>other_threads\<close> gives the other threads their
  turn without a load by the worker: the next entry of the oracle says whether the flag
  is raised.
\<close>

definition other_threads :: "search \<Rightarrow> search" where
  "other_threads st = snd (load_stopped st)"

definition getTime :: "search \<Rightarrow> int \<times> search" where
  "getTime st =
     (case clock st of
        [] \<Rightarrow> (0, st)
      | t # ts \<Rightarrow> (t, st\<lparr>clock := ts\<rparr>))"

definition limitReached :: "search \<Rightarrow> bool \<times> search" where
  "limitReached st =
     (let (s, st1) = (if normalSearch st then load_stopped st else (False, st)) in
      if normalSearch st \<and> s then (True, st1)
      else if worker_id st1 \<noteq> 0 then (False, st1)
      else if l_nodes (limit st1) \<noteq> 0 \<and> nodes st1 \<ge> l_nodes (limit st1) then (True, st1)
      else
        let st2 = st1\<lparr>checkTime := checkTime st1 - 1\<rparr> in
        if checkTime st2 > 0 then (False, st2)
        else
          let st3 = st2\<lparr>checkTime := 2047\<rparr> in
          if maximum (limit st3) \<noteq> 0 then
            (let (ms, st4) = getTime st3 in
             if ms \<ge> maximum (limit st4) then (True, st4\<lparr>stopped := True\<rparr>)
             else (False, st4))
          else (False, st3))"

section \<open>The transposition table, the evaluation and the tablebases, as the search calls them\<close>

definition storeEntry :: "int \<Rightarrow> Score \<Rightarrow> Flag \<Rightarrow> 64 word \<Rightarrow> Move \<Rightarrow> search \<Rightarrow> search" where
  "storeEntry d s f k m st =
     st\<lparr>tt_log := tt_log st @
        [\<lparr>w_depth = d, w_score = s, w_flag = f, w_key = k, w_move = m, w_stopped = stopped st\<rparr>]\<rparr>"

text \<open>\<open>Eval::evaluation\<close> (evaluation.cpp): the scaled network output, clamped.\<close>

definition evaluation :: "'b env \<Rightarrow> 'b \<Rightarrow> Score" where
  "evaluation E b =
     (let v = nnue_scaled E b;
          lo = VALUE_MATED_IN_PLY (cfg E) + 1;
          hi = VALUE_MATE_IN_PLY (cfg E) - 1
      in if v < lo then lo else if hi < v then hi else v)"

definition probeTB :: "'b env \<Rightarrow> 'b \<Rightarrow> Score" where
  "probeTB E b =
     (if piece_count E b > TB_LARGEST E then VALUE_NONE (cfg E)
      else
        let TBresult = tb_probe_wdl E b in
        if TBresult = TB_LOSS then VALUE_TB_LOSS (cfg E)
        else if TBresult = TB_WIN then VALUE_TB_WIN (cfg E)
        else if TBresult = TB_DRAW \<or> TBresult = TB_BLESSED_LOSS \<or> TBresult = TB_CURSED_WIN then 0
        else VALUE_NONE (cfg E))"

definition inCheck_of :: "'b env \<Rightarrow> 'b \<Rightarrow> bool" where
  "inCheck_of E b =
     isSquareAttacked E b (opp (sideToMove E b)) (KingSQ E b (sideToMove E b))"

section \<open>Killer moves and the butterfly history\<close>

definition bonus :: "int \<Rightarrow> int" where
  "bonus depth = min 2000 (depth * 155)"

text \<open>
  Modelled from the spec: \<open>getHistory\<close> is declared in a header that is not among the
  sources; for a quiet move it reads the butterfly table at (side to move, from, to),
  the entry \<open>updateHistoryBonus\<close> then writes.
\<close>

definition getHistory :: "'b env \<Rightarrow> 'b \<Rightarrow> Move \<Rightarrow> search \<Rightarrow> int" where
  "getHistory E b move st =
     history st (sideToMove E b) (from_sq (cfg E) move) (to_sq (cfg E) move)"

definition updateHistoryBonus :: "'b env \<Rightarrow> 'b \<Rightarrow> Move \<Rightarrow> int \<Rightarrow> search \<Rightarrow> search" where
  "updateHistoryBonus E b move bns st =
     (let hhBonus = bns - (getHistory E b move st * \<bar>bns\<bar>) sdiv 16384;
          c = sideToMove E b; f = from_sq (cfg E) move; t = to_sq (cfg E) move
      in st\<lparr>history :=
            (history st)(c := (history st c)(f := (history st c f)(t := history st c f t + hhBonus)))\<rparr>)"

fun updateHistory_loop :: "'b env \<Rightarrow> 'b \<Rightarrow> Move \<Rightarrow> int \<Rightarrow> Move list \<Rightarrow> search \<Rightarrow> search" where
  "updateHistory_loop E b bestmove bns [] st = st"
| "updateHistory_loop E b bestmove bns (move # rest) st =
     (if move = bestmove then updateHistory_loop E b bestmove bns rest st
      else updateHistory_loop E b bestmove bns rest (updateHistoryBonus E b move (- bns) st))"

text \<open>\<open>quiets\<close> is the array, \<open>quietCount\<close> the number of its entries in use.\<close>

definition updateHistory ::
  "'b env \<Rightarrow> 'b \<Rightarrow> Move \<Rightarrow> int \<Rightarrow> int \<Rightarrow> (nat \<Rightarrow> Move) \<Rightarrow> nat \<Rightarrow> search \<Rightarrow> search" where
  "updateHistory E b bestmove bns depth quiets quietCount st =
     (let st1 = (if depth > 1 then updateHistoryBonus E b bestmove bns st else st)
      in updateHistory_loop E b bestmove bns (map quiets [0..<quietCount]) st1)"

definition updateAllHistories ::
  "'b env \<Rightarrow> 'b \<Rightarrow> Move \<Rightarrow> Score \<Rightarrow> Score \<Rightarrow> int \<Rightarrow> (nat \<Rightarrow> Move) \<Rightarrow> nat \<Rightarrow> int \<Rightarrow> search \<Rightarrow> search" where
  "updateAllHistories E b bestMove best beta depth quiets quietCount ply st =
     (if best < beta then st
      else
        let depthBonus = bonus depth in
        if pieceAtB E b (to_sq (cfg E) bestMove) = None_piece (cfg E) then
          (let st1 = st\<lparr>killerMoves := (killerMoves st)(1 := (killerMoves st 1)(ply := killerMoves st 0 ply))\<rparr>;
               st2 = st1\<lparr>killerMoves := (killerMoves st1)(0 := (killerMoves st1 0)(ply := bestMove))\<rparr>
           in updateHistory E b bestMove depthBonus depth quiets quietCount st2)
        else st)"

definition history_bounded :: "search \<Rightarrow> bool" where
  "history_bounded st = (\<forall>c f t. \<bar>history st c f t\<bar> \<le> 16384 + 2000)"

section \<open>Quiescence search\<close>

text \<open>The local variables of \<open>qsearch\<close> that its move loop changes.\<close>

record qlocals =
  q_bestValue :: Score
  q_alpha :: Score
  q_bestMove :: Move

text \<open>
  \<open>qsearch\<close> up to its move loop: either it returns (\<open>Inl\<close>: the limit check, the ply
  bound, a draw, the stand-pat cutoff, the table cutoff), or it reaches the loop with
  the picker's moves and its locals (\<open>Inr\<close>). \<open>qsearch<Root>\<close> is not a PV node:
  \<open>PvNode = node == PV\<close>.
\<close>

definition qsearch_entry ::
  "'b env \<Rightarrow> Node \<Rightarrow> Score \<Rightarrow> Score \<Rightarrow> int \<Rightarrow> 'b \<Rightarrow> search
     \<Rightarrow> (Score \<times> search) + (Move list \<times> qlocals \<times> search)" where
  "qsearch_entry E node alpha beta ply b st0 =
     (let (lim, st) = limitReached st0 in
      if lim then Inl (0, st)
      else
        let PvNode = (node = PV);
            inCheck = inCheck_of E b
        in
        if ply \<ge> MAX_PLY (cfg E) then Inl (evaluation E b, st)
        else if isRepetition E b (1 + of_bool PvNode) then Inl (- 1 + uint (nodes st AND 2), st)
        else
          let state = isDrawn E b inCheck in
          if state \<noteq> NONE then Inl (if state = LOST then mated_in (cfg E) ply else 0, st)
          else
            let bestValue = evaluation E b in
            if bestValue \<ge> beta then Inl (bestValue, st)
            else
              let alpha1 = (if bestValue > alpha then bestValue else alpha);
                  (ttHit, ttMove, tte) = probeTT E (tt_log st) (hashKey E b);
                  ttScore = (if ttHit then scoreFromTT (cfg E) (e_score tte) ply
                             else VALUE_NONE (cfg E))
              in
              if ttHit \<and> \<not> PvNode \<and> ttScore \<noteq> VALUE_NONE (cfg E) \<and> e_flag tte \<noteq> NONEBOUND
                 \<and> (e_flag tte = EXACTBOUND
                      \<or> (e_flag tte = LOWERBOUND \<and> ttScore \<ge> beta)
                      \<or> (e_flag tte = UPPERBOUND \<and> ttScore \<le> alpha1))
              then Inl (ttScore, st)
              else Inr (qsearch_picker E b st ply ttMove ttHit,
                        \<lparr>q_bestValue = bestValue, q_alpha = alpha1, q_bestMove = NO_MOVE\<rparr>, st))"

text \<open>The two prunings of the loop, under their common guard on \<open>bestValue\<close>.\<close>

definition delta_prune :: "'b env \<Rightarrow> 'b \<Rightarrow> Score \<Rightarrow> Score \<Rightarrow> Move \<Rightarrow> bool" where
  "delta_prune E b bestValue alpha move =
     (let captured = type_of_piece (cfg E) (pieceAtB E b (to_sq (cfg E) move))
      in captured \<noteq> NONETYPE (cfg E)
         \<and> \<not> inCheck_of E b
         \<and> bestValue + 400 + piece_values_EG (cfg E) captured < alpha
         \<and> \<not> promoted (cfg E) move
         \<and> nonPawnMat E b (sideToMove E b))"

definition see_prune :: "'b env \<Rightarrow> 'b \<Rightarrow> Move \<Rightarrow> bool" where
  "see_prune E b move = (\<not> inCheck_of E b \<and> \<not> see E b move 0)"

definition qsearch_prune :: "'b env \<Rightarrow> 'b \<Rightarrow> Score \<Rightarrow> Score \<Rightarrow> Move \<Rightarrow> bool" where
  "qsearch_prune E b bestValue alpha move =
     (bestValue > VALUE_TB_LOSS_IN_MAX_PLY (cfg E)
      \<and> (delta_prune E b bestValue alpha move \<or> see_prune E b move))"

text \<open>\<open>qsearch\<close> after its loop: the store and the return.\<close>

definition qsearch_exit :: "'b env \<Rightarrow> Score \<Rightarrow> int \<Rightarrow> 'b \<Rightarrow> qlocals \<Rightarrow> search \<Rightarrow> Score \<times> search" where
  "qsearch_exit E beta ply b L st =
     (let bestValue = q_bestValue L;
          bnd = (if bestValue \<ge> beta then LOWERBOUND else UPPERBOUND);
          (s, st1) = (if normalSearch st then load_stopped st else (False, st))
      in if \<not> normalSearch st \<or> \<not> s
         then (bestValue,
               storeEntry 0 (scoreToTT (cfg E) bestValue ply) bnd (hashKey E b) (q_bestMove L) st1)
         else (bestValue, st1))"

text \<open>
  The recursion. The board is passed down: \<open>makeMove\<close> gives the child's board and
  \<open>unmakeMove\<close> is the return to the caller's.
\<close>

function qsearch :: "'b env \<Rightarrow> Node \<Rightarrow> Score \<Rightarrow> Score \<Rightarrow> int \<Rightarrow> 'b \<Rightarrow> search \<Rightarrow> Score \<times> search"
  and qsearch_loop ::
    "'b env \<Rightarrow> Node \<Rightarrow> Score \<Rightarrow> int \<Rightarrow> 'b \<Rightarrow> Move list \<Rightarrow> qlocals \<Rightarrow> search \<Rightarrow> qlocals \<times> search"
where
  "qsearch E node alpha beta ply b st =
     (case qsearch_entry E node alpha beta ply b st of
        Inl r \<Rightarrow> r
      | Inr (moves, L, st1) \<Rightarrow>
          (case qsearch_loop E node beta ply b moves L st1 of
             (L', st2) \<Rightarrow> qsearch_exit E beta ply b L' st2))"
| "qsearch_loop E node beta ply b [] L st = (L, st)"
| "qsearch_loop E node beta ply b (move # rest) L st =
     (if move = NO_MOVE then (L, st)
      else if qsearch_prune E b (q_bestValue L) (q_alpha L) move
      then qsearch_loop E node beta ply b rest L st
      else
        (case qsearch E node (- beta) (- q_alpha L) (ply + 1) (makeMove E b move)
                (st\<lparr>nodes := nodes st + 1\<rparr>) of
           (s, st1) \<Rightarrow>
             let score = - s in
             if score > q_bestValue L then
               (if score > q_alpha L then
                  (if score \<ge> beta
                   then (L\<lparr>q_bestValue := score, q_alpha := score, q_bestMove := move\<rparr>, st1)
                   else qsearch_loop E node beta ply b rest
                          (L\<lparr>q_bestValue := score, q_alpha := score, q_bestMove := move\<rparr>) st1)
                else qsearch_loop E node beta ply b rest (L\<lparr>q_bestValue := score\<rparr>) st1)
             else qsearch_loop E node beta ply b rest L st1))"
  by pat_completeness auto
termination
proof (relation "measures
    [\<lambda>x. case x of
            Inl (E, node, alpha, beta, ply, b, st) \<Rightarrow> 2 * nat (MAX_PLY (cfg E) - ply)
          | Inr (E, node, beta, ply, b, ms, L, st) \<Rightarrow> 2 * nat (MAX_PLY (cfg E) - (ply + 1)) + 1,
     \<lambda>x. case x of
            Inl (E, node, alpha, beta, ply, b, st) \<Rightarrow> 0
          | Inr (E, node, beta, ply, b, ms, L, st) \<Rightarrow> length ms]", goal_cases)
  case 1
  then show ?case by simp
next
  case (2 E node alpha beta ply b st x2 moves y L st1)
  then have "ply < MAX_PLY (cfg E)"
    by (auto simp add: qsearch_entry_def Let_def split: prod.splits if_splits)
  then show ?case by simp
qed simp_all

declare qsearch.simps [simp del]

section \<open>Alpha-beta search\<close>

text \<open>
  The local variables of \<open>absearch\<close> from its label \<open>moves\<close> on. \<open>madeMoves\<close> and
  \<open>quietCount\<close> are \<open>uint8_t\<close>; \<open>quiets\<close> is the array the loop appends to (the code
  gives it 64 entries and never checks the bound).
\<close>

record alocals =
  v_depth :: int
  v_alpha :: Score
  v_beta :: Score
  v_best :: Score
  v_maxValue :: Score
  v_staticEval :: Score
  v_improving :: bool
  v_inCheck :: bool
  v_ttHit :: bool
  v_ttMove :: Move
  v_ttScore :: Score
  v_tte :: TEntry
  v_score :: Score
  v_bestMove :: Move
  v_quiets :: "nat \<Rightarrow> Move"
  v_quietCount :: "8 word"
  v_madeMoves :: "8 word"
  v_doFullSearch :: bool

text \<open>
  \<open>absearch\<close> from its first line to the check extension: it returns (\<open>Inl\<close>), or goes
  on with the depth and the window (\<open>Inr\<close>).
\<close>

definition absearch_head ::
  "'b env \<Rightarrow> Node \<Rightarrow> int \<Rightarrow> Score \<Rightarrow> Score \<Rightarrow> int \<Rightarrow> 'b \<Rightarrow> search
     \<Rightarrow> (Score \<times> search) + (int \<times> Score \<times> Score \<times> search)" where
  "absearch_head E node depth alpha beta ply b st0 =
     (let (lim, st) = limitReached st0 in
      if lim then Inl (0, st)
      else
        let RootNode = (node = Root);
            PvNode = (node \<noteq> NonPV);
            inCheck = inCheck_of E b
        in
        if ply \<ge> MAX_PLY (cfg E) then Inl (if \<not> inCheck then evaluation E b else 0, st)
        else
          let st1 = st\<lparr>pvLength := (pvLength st)(ply := ply)\<rparr> in
          (case (if RootNode then Inr (alpha, beta)
                 else if isRepetition E b (1 + of_bool PvNode)
                 then Inl (- 1 + uint (nodes st1 AND 2))
                 else
                   let state = isDrawn E b inCheck in
                   if state \<noteq> NONE then Inl (if state = LOST then mated_in (cfg E) ply else 0)
                   else
                     let alpha1 = max alpha (mated_in (cfg E) ply);
                         beta1 = min beta (mate_in (cfg E) (ply + 1))
                     in if alpha1 \<ge> beta1 then Inl alpha1 else Inr (alpha1, beta1)) of
             Inl v \<Rightarrow> Inl (v, st1)
           | Inr (alpha1, beta1) \<Rightarrow>
               Inr (if inCheck then depth + 1 else depth, alpha1, beta1, st1)))"

text \<open>The table cutoff of a non-PV node: a score to return, or the narrowed window.\<close>

definition tt_cutoff ::
  "config \<Rightarrow> Node \<Rightarrow> Move \<Rightarrow> int \<Rightarrow> Score \<Rightarrow> Score \<Rightarrow> bool \<Rightarrow> TEntry \<Rightarrow> Score \<Rightarrow> Move
     \<Rightarrow> Score + (Score \<times> Score)" where
  "tt_cutoff K node excluded depth alpha beta ttHit tte ttScore prevmove =
     (if node \<noteq> Root \<and> excluded = NO_MOVE \<and> node = NonPV \<and> ttHit \<and> e_depth tte \<ge> depth
         \<and> prevmove \<noteq> NULL_MOVE K \<and> ttScore \<noteq> VALUE_NONE K
      then
        if e_flag tte = EXACTBOUND then Inl ttScore
        else
          let alpha1 = (if e_flag tte = LOWERBOUND then max alpha ttScore else alpha);
              beta1 = (if e_flag tte \<noteq> LOWERBOUND \<and> e_flag tte = UPPERBOUND then min beta ttScore
                       else beta)
          in if alpha1 \<ge> beta1 then Inl ttScore else Inr (alpha1, beta1)
      else Inr (alpha, beta))"

text \<open>
  Tablebase probing: the score returned after the store, or \<open>best\<close>, \<open>alpha\<close> and
  \<open>maxValue\<close> as the probe leaves them. The store has no test of the stop flag; the
  other threads have had their turn during the probe.
\<close>

definition tb_step ::
  "'b env \<Rightarrow> Node \<Rightarrow> int \<Rightarrow> 'b \<Rightarrow> int \<Rightarrow> Score \<Rightarrow> Score \<Rightarrow> search
     \<Rightarrow> (Score \<times> search) + (Score \<times> Score \<times> Score \<times> search)" where
  "tb_step E node ply b depth alpha beta st =
     (let K = cfg E;
          unchanged = Inr (- VALUE_INFINITE K, alpha, VALUE_MATE K, st)
      in
      if node \<noteq> Root \<and> normalSearch st \<and> useTB st then
        (let tbRes0 = probeTB E b;
             st0 = other_threads st
         in
         if tbRes0 \<noteq> VALUE_NONE K then
           (let st1 = st0\<lparr>tbhits := tbhits st0 + 1\<rparr>;
                (tbRes, flag) =
                  (if tbRes0 = VALUE_TB_WIN K then (VALUE_MATE_IN_PLY K - ply - 1, LOWERBOUND)
                   else if tbRes0 = VALUE_TB_LOSS K then (VALUE_MATED_IN_PLY K + ply + 1, UPPERBOUND)
                   else (0, EXACTBOUND))
            in
            if flag = EXACTBOUND \<or> (flag = LOWERBOUND \<and> tbRes \<ge> beta)
               \<or> (flag = UPPERBOUND \<and> tbRes \<le> alpha)
            then Inl (tbRes, storeEntry (depth + 6) (scoreToTT K tbRes ply) flag (hashKey E b) NO_MOVE st1)
            else if node \<noteq> NonPV then
              (if flag = LOWERBOUND then Inr (tbRes, max alpha tbRes, VALUE_MATE K, st1)
               else Inr (- VALUE_INFINITE K, alpha, tbRes, st1))
            else Inr (- VALUE_INFINITE K, alpha, VALUE_MATE K, st1))
         else Inr (- VALUE_INFINITE K, alpha, VALUE_MATE K, st0))
      else unchanged)"

definition improving_of :: "config \<Rightarrow> search \<Rightarrow> int \<Rightarrow> Score \<Rightarrow> bool" where
  "improving_of K st ply staticEval =
     (if eval (stack st (ply - 2)) \<noteq> VALUE_NONE K then staticEval > eval (stack st (ply - 2))
      else False)"

text \<open>
  \<open>absearch\<close> from the reset of the child's excluded move to the \<open>improving\<close> boolean:
  the table probe, the tablebase probe and the static evaluation.
\<close>

definition absearch_probe ::
  "'b env \<Rightarrow> Node \<Rightarrow> int \<Rightarrow> 'b \<Rightarrow> Move \<Rightarrow> int \<Rightarrow> Score \<Rightarrow> Score \<Rightarrow> search
     \<Rightarrow> (Score \<times> search) + (alocals \<times> search)" where
  "absearch_probe E node ply b excluded depth alpha beta st0 =
     (let K = cfg E;
          inCheck = inCheck_of E b;
          st1 = st0\<lparr>stack := (stack st0)(ply + 1 := (stack st0 (ply + 1))\<lparr>excludedMove := NO_MOVE\<rparr>)\<rparr>;
          st2 = (if node \<noteq> NonPV \<and> ply > seldepth st1 then st1\<lparr>seldepth := ply\<rparr> else st1);
          (ttHit, ttMove, tte) = probeTT E (tt_log st2) (hashKey E b);
          ttScore = (if ttHit then scoreFromTT K (e_score tte) ply else VALUE_NONE K)
      in
      case tt_cutoff K node excluded depth alpha beta ttHit tte ttScore
             (currentmove (stack st2 (ply - 1))) of
        Inl v \<Rightarrow> Inl (v, st2)
      | Inr (alpha1, beta1) \<Rightarrow>
          (case tb_step E node ply b depth alpha1 beta1 st2 of
             Inl r \<Rightarrow> Inl r
           | Inr (best, alpha2, maxValue, st3) \<Rightarrow>
               (let staticEval = (if inCheck then VALUE_NONE K
                                  else if ttHit then e_score tte else evaluation E b);
                    st4 = (if inCheck then st3
                           else st3\<lparr>stack := (stack st3)(ply := (stack st3 ply)\<lparr>eval := staticEval\<rparr>)\<rparr>);
                    improving = (if inCheck then False else improving_of K st4 ply staticEval)
                in Inr (\<lparr>v_depth = depth, v_alpha = alpha2, v_beta = beta1, v_best = best,
                         v_maxValue = maxValue, v_staticEval = staticEval, v_improving = improving,
                         v_inCheck = inCheck, v_ttHit = ttHit, v_ttMove = ttMove, v_ttScore = ttScore,
                         v_tte = tte, v_score = VALUE_NONE K, v_bestMove = NO_MOVE,
                         v_quiets = (\<lambda>i. NO_MOVE), v_quietCount = 0, v_madeMoves = 0,
                         v_doFullSearch = False\<rparr>, st4))))"

text \<open>
  What follows the static evaluation: internal iterative reductions, then a return
  (reverse futility), a drop into quiescence search, a null-move search, or the move
  loop.
\<close>

datatype plan = Return Score | Quiesce Node | NullMove int | Moves

definition absearch_plan ::
  "'b env \<Rightarrow> Node \<Rightarrow> 'b \<Rightarrow> Move \<Rightarrow> Move \<Rightarrow> alocals \<Rightarrow> plan \<times> alocals" where
  "absearch_plan E node b excluded prevmove L =
     (let K = cfg E in
      if v_inCheck L \<or> node = Root then (Moves, L)
      else
        let depth1 = (if v_depth L \<ge> 3 \<and> \<not> v_ttHit L then v_depth L - 1 else v_depth L);
            depth2 = (if node \<noteq> NonPV \<and> \<not> v_ttHit L then depth1 - 1 else depth1);
            L1 = L\<lparr>v_depth := depth2\<rparr>
        in
        if depth2 \<le> 0 then (Quiesce PV, L1)
        else if node \<noteq> NonPV then (Moves, L1)
        else if depth2 < 3 \<and> v_staticEval L + 129 < v_alpha L then (Quiesce NonPV, L1)
        else if \<bar>v_beta L\<bar> < VALUE_TB_WIN_IN_MAX_PLY K \<and> depth2 < 7
                \<and> v_staticEval L - 64 * depth2 + 71 * of_bool (v_improving L) \<ge> v_beta L
        then (Return (v_beta L), L1)
        else if nonPawnMat E b (sideToMove E b) \<and> excluded = NO_MOVE \<and> prevmove \<noteq> NULL_MOVE K
                \<and> depth2 \<ge> 3 \<and> v_staticEval L \<ge> v_beta L
        then (NullMove (5 + min 4 (depth2 sdiv 5) + min 3 ((v_staticEval L - v_beta L) sdiv 214)), L1)
        else (Moves, L1))"

text \<open>The parts of one iteration of the move loop.\<close>

definition prune_move :: "'b env \<Rightarrow> Node \<Rightarrow> 'b \<Rightarrow> alocals \<Rightarrow> Move \<Rightarrow> bool" where
  "prune_move E node b L move =
     (let K = cfg E;
          capture = (pieceAtB E b (to_sq K move) \<noteq> None_piece K);
          depth = v_depth L
      in node \<noteq> Root \<and> v_best L > VALUE_TB_LOSS_IN_MAX_PLY K \<and>
         (if capture then depth < 6 \<and> \<not> see E b move (- (depth * 92))
          else (\<not> v_inCheck L \<and> node = NonPV \<and> \<not> promoted K move \<and> depth \<le> 5
                \<and> uint (v_quietCount L) > 4 + depth * depth)
               \<or> (depth < 7 \<and> \<not> see E b move (- (depth * 93)))))"

definition singular_cond :: "'b env \<Rightarrow> Node \<Rightarrow> Move \<Rightarrow> Move \<Rightarrow> alocals \<Rightarrow> bool" where
  "singular_cond E node excluded move L =
     (node \<noteq> Root \<and> v_depth L \<ge> 8 \<and> v_ttHit L \<and> v_ttMove L = move \<and> excluded = NO_MOVE
      \<and> \<bar>v_ttScore L\<bar> < 10000
      \<and> flag_bits (cfg E) (e_flag (v_tte L)) AND flag_bits (cfg E) LOWERBOUND \<noteq> 0
      \<and> e_depth (v_tte L) \<ge> v_depth L - 3)"

definition singularBeta :: "alocals \<Rightarrow> int" where
  "singularBeta L = v_ttScore L - 3 * v_depth L"

definition set_excluded :: "int \<Rightarrow> Move \<Rightarrow> search \<Rightarrow> search" where
  "set_excluded ply m st = st\<lparr>stack := (stack st)(ply := (stack st ply)\<lparr>excludedMove := m\<rparr>)\<rparr>"

definition set_currentmove :: "int \<Rightarrow> Move \<Rightarrow> search \<Rightarrow> search" where
  "set_currentmove ply m st = st\<lparr>stack := (stack st)(ply := (stack st ply)\<lparr>currentmove := m\<rparr>)\<rparr>"

definition print_currmove :: "Node \<Rightarrow> Move \<Rightarrow> alocals \<Rightarrow> search \<Rightarrow> search" where
  "print_currmove node move L st =
     (if worker_id st = 0 \<and> node = Root \<and> normalSearch st then
        (let (s, st1) = load_stopped st in
         if \<not> s then
           (let (ms, st2) = getTime st1 in
            if ms > 10000
            then st2\<lparr>out := out st2 @
                   [Currmove (v_depth L - of_bool (v_inCheck L)) move (uint (v_madeMoves L))]\<rparr>
            else st2)
         else st1)
      else st)"

definition lmr_applies :: "Node \<Rightarrow> alocals \<Rightarrow> bool" where
  "lmr_applies node L =
     (v_depth L \<ge> 3 \<and> \<not> v_inCheck L \<and> uint (v_madeMoves L) > 3 + 2 * of_bool (node \<noteq> NonPV))"

definition lmr_rdepth :: "'b env \<Rightarrow> Node \<Rightarrow> int \<Rightarrow> alocals \<Rightarrow> search \<Rightarrow> int" where
  "lmr_rdepth E node newDepth L st =
     (let r0 = reductions E (v_depth L) (uint (v_madeMoves L));
          r1 = r0 - worker_id st smod 2;
          r2 = r1 + of_bool (v_improving L);
          r3 = r2 - of_bool (node \<noteq> NonPV);
          v = newDepth - r3
      in if v < 1 then 1 else if newDepth + 1 < v then newDepth + 1 else v)"

definition add_quiet :: "bool \<Rightarrow> Move \<Rightarrow> alocals \<Rightarrow> alocals" where
  "add_quiet capture move L =
     (if \<not> capture
      then L\<lparr>v_quiets := (v_quiets L)(unat (v_quietCount L) := move),
              v_quietCount := v_quietCount L + 1\<rparr>
      else L)"

definition update_pv :: "int \<Rightarrow> Move \<Rightarrow> search \<Rightarrow> search" where
  "update_pv ply move st =
     st\<lparr>pvTable := (pvTable st)(ply :=
            (\<lambda>j. if j = ply then move
                else if ply + 1 \<le> j \<and> j < pvLength st (ply + 1) then pvTable st (ply + 1) j
                else pvTable st ply j)),
        pvLength := (pvLength st)(ply := pvLength st (ply + 1))\<rparr>"

definition record_score ::
  "'b env \<Rightarrow> int \<Rightarrow> 'b \<Rightarrow> Move \<Rightarrow> 64 word \<Rightarrow> Score \<Rightarrow> alocals \<Rightarrow> search \<Rightarrow> bool \<times> alocals \<times> search" where
  "record_score E ply b move nodeCount score L0 st0 =
     (let K = cfg E;
          capture = (pieceAtB E b (to_sq K move) \<noteq> None_piece K);
          st = (if worker_id st0 = 0
                then st0\<lparr>spentEffort := (spentEffort st0)(from_sq K move :=
                        (spentEffort st0 (from_sq K move))(to_sq K move :=
                           spentEffort st0 (from_sq K move) (to_sq K move) + (nodes st0 - nodeCount)))\<rparr>
                else st0);
          L = L0\<lparr>v_score := score\<rparr>
      in
      if score > v_best L then
        (let L1 = L\<lparr>v_best := score\<rparr> in
         if score > v_alpha L1 then
           (let L2 = L1\<lparr>v_alpha := score, v_bestMove := move\<rparr>;
                st1 = update_pv ply move st
            in
            if score \<ge> v_beta L2
            then (True, L2,
                  updateAllHistories E b move score (v_beta L2) (v_depth L2) (v_quiets L2)
                    (unat (v_quietCount L2)) ply st1)
            else (False, add_quiet capture move L2, st1))
         else (False, add_quiet capture move L1, st))
      else (False, add_quiet capture move L, st))"

text \<open>\<open>absearch\<close> after its loop: mate or stalemate, the store and the return.\<close>

definition absearch_exit ::
  "'b env \<Rightarrow> Node \<Rightarrow> int \<Rightarrow> 'b \<Rightarrow> Move \<Rightarrow> alocals \<Rightarrow> search \<Rightarrow> Score \<times> search" where
  "absearch_exit E node ply b excluded L st =
     (let K = cfg E;
          best0 = (if v_madeMoves L = 0
                   then (if excluded \<noteq> NO_MOVE then v_alpha L
                         else if v_inCheck L then mated_in K ply else 0)
                   else v_best L);
          best = (if node \<noteq> NonPV then min best0 (v_maxValue L) else best0);
          bnd = (if best \<ge> v_beta L then LOWERBOUND
                 else if node \<noteq> NonPV \<and> v_bestMove L \<noteq> NO_MOVE then EXACTBOUND
                 else UPPERBOUND)
      in
      if excluded = NO_MOVE then
        (let (s, st1) = (if normalSearch st then load_stopped st else (False, st)) in
         if \<not> normalSearch st \<or> \<not> s
         then (best, storeEntry (v_depth L) (scoreToTT K best ply) bnd (hashKey E b) (v_bestMove L) st1)
         else (best, st1))
      else (best, st))"

definition newDepth_of :: "alocals \<Rightarrow> Score option \<Rightarrow> int" where
  "newDepth_of L sv =
     (let extension = (case sv of Some value \<Rightarrow> if value < singularBeta L then 1 else 0
                       | None \<Rightarrow> 0)
      in v_depth L - 1 + extension)"

definition enter_move :: "Node \<Rightarrow> int \<Rightarrow> Move \<Rightarrow> alocals \<Rightarrow> search \<Rightarrow> search" where
  "enter_move node ply move L st =
     (let st2 = print_currmove node move L st;
          st3 = st2\<lparr>nodes := nodes st2 + 1\<rparr>
      in set_currentmove ply move st3)"

text \<open>The rank of a node in the termination order of the recursion below.\<close>

definition node_rank :: "'b env \<Rightarrow> int \<Rightarrow> nat" where
  "node_rank E ply = 2 * nat (MAX_PLY (cfg E) - ply) + of_bool (ply \<ge> MAX_PLY (cfg E))"

text \<open>
  The recursion: \<open>absearch\<close>, its move loop, and the searches of one move (late move
  reduction, the zero-window search, the PVS search). A \<open>return\<close> inside the loop is
  \<open>Inl\<close>; leaving the loop is \<open>Inr\<close>.
\<close>

function absearch :: "'b env \<Rightarrow> Node \<Rightarrow> int \<Rightarrow> Score \<Rightarrow> Score \<Rightarrow> int \<Rightarrow> 'b \<Rightarrow> search \<Rightarrow> Score \<times> search"
  and absearch_moves ::
    "'b env \<Rightarrow> Node \<Rightarrow> int \<Rightarrow> 'b \<Rightarrow> Move \<Rightarrow> alocals \<Rightarrow> search \<Rightarrow> Score \<times> search"
  and absearch_loop ::
    "'b env \<Rightarrow> Node \<Rightarrow> int \<Rightarrow> 'b \<Rightarrow> Move \<Rightarrow> Move list \<Rightarrow> alocals \<Rightarrow> search
       \<Rightarrow> (Score \<times> search) + (alocals \<times> search)"
  and absearch_move ::
    "'b env \<Rightarrow> Node \<Rightarrow> int \<Rightarrow> 'b \<Rightarrow> Move \<Rightarrow> int \<Rightarrow> alocals \<Rightarrow> search
       \<Rightarrow> bool \<times> alocals \<times> search"
  and absearch_lmr ::
    "'b env \<Rightarrow> Node \<Rightarrow> int \<Rightarrow> 'b \<Rightarrow> int \<Rightarrow> alocals \<Rightarrow> search \<Rightarrow> Score \<times> bool \<times> search"
  and absearch_full ::
    "'b env \<Rightarrow> bool \<Rightarrow> int \<Rightarrow> 'b \<Rightarrow> int \<Rightarrow> alocals \<Rightarrow> Score \<Rightarrow> search \<Rightarrow> Score \<times> search"
  and absearch_pvs ::
    "'b env \<Rightarrow> Node \<Rightarrow> int \<Rightarrow> 'b \<Rightarrow> int \<Rightarrow> alocals \<Rightarrow> Score \<Rightarrow> search \<Rightarrow> Score \<times> search"
where
  "absearch E node depth alpha beta ply b st =
     (case absearch_head E node depth alpha beta ply b st of
        Inl r \<Rightarrow> r
      | Inr (depth1, alpha1, beta1, st1) \<Rightarrow>
          if depth1 \<le> 0 then qsearch E node alpha1 beta1 ply b st1
          else
            (case absearch_probe E node ply b (excludedMove (stack st1 ply)) depth1 alpha1 beta1 st1 of
               Inl r \<Rightarrow> r
             | Inr (L0, st2) \<Rightarrow>
                 (case absearch_plan E node b (excludedMove (stack st1 ply))
                         (currentmove (stack st2 (ply - 1))) L0 of
                    (Return v, L) \<Rightarrow> (v, st2)
                  | (Quiesce n, L) \<Rightarrow> qsearch E n (v_alpha L) (v_beta L) ply b st2
                  | (Moves, L) \<Rightarrow> absearch_moves E node ply b (excludedMove (stack st1 ply)) L st2
                  | (NullMove R, L) \<Rightarrow>
                      (case absearch E NonPV (v_depth L - R) (- v_beta L) (- v_beta L + 1) (ply + 1)
                              (makeNullMove E b) (set_currentmove ply (NULL_MOVE (cfg E)) st2) of
                         (s, st3) \<Rightarrow>
                           if - s \<ge> v_beta L
                           then (if - s \<ge> VALUE_TB_WIN_IN_MAX_PLY (cfg E) then v_beta L else - s, st3)
                           else absearch_moves E node ply b (excludedMove (stack st1 ply)) L st3))))"
| "absearch_moves E node ply b excluded L st =
     (case absearch_loop E node ply b excluded
             (absearch_picker E b st ply (node = Root) (v_ttMove L) (v_ttHit L)) L st of
        Inl r \<Rightarrow> r
      | Inr (L', st') \<Rightarrow> absearch_exit E node ply b excluded L' st')"
| "absearch_loop E node ply b excluded [] L st = Inr (L, st)"
| "absearch_loop E node ply b excluded (move # rest) L st =
     (if move = NO_MOVE then Inr (L, st)
      else if move = excluded then absearch_loop E node ply b excluded rest L st
      else if prune_move E node b (L\<lparr>v_madeMoves := v_madeMoves L + 1\<rparr>) move
      then absearch_loop E node ply b excluded rest (L\<lparr>v_madeMoves := v_madeMoves L + 1\<rparr>) st
      else
        (case (if singular_cond E node excluded move (L\<lparr>v_madeMoves := v_madeMoves L + 1\<rparr>)
               then (case absearch E NonPV ((v_depth L - 1) sdiv 2) (singularBeta L - 1)
                            (singularBeta L) ply b (set_excluded ply move st) of
                       (value, st') \<Rightarrow> (Some value, set_excluded ply NO_MOVE st'))
               else (None, st)) of
           (sv, st1) \<Rightarrow>
             if (case sv of Some value \<Rightarrow> \<not> value < singularBeta L \<and> singularBeta L \<ge> v_beta L
                 | None \<Rightarrow> False)
             then Inl (singularBeta L, st1)
             else
               (case absearch_move E node ply b move (newDepth_of L sv)
                       (L\<lparr>v_madeMoves := v_madeMoves L + 1\<rparr>) st1 of
                  (stop, L', st') \<Rightarrow>
                    if stop then Inr (L', st') else absearch_loop E node ply b excluded rest L' st')))"
| "absearch_move E node ply b move newDepth L st =
     (case absearch_lmr E node ply (makeMove E b move) newDepth L (enter_move node ply move L st) of
        (score1, doFull, st2) \<Rightarrow>
          (case absearch_full E doFull ply (makeMove E b move) newDepth L score1 st2 of
             (score2, st3) \<Rightarrow>
               (case absearch_pvs E node ply (makeMove E b move) newDepth L score2 st3 of
                  (score3, st4) \<Rightarrow>
                    record_score E ply b move (nodes (enter_move node ply move L st))
                      score3 (L\<lparr>v_doFullSearch := doFull\<rparr>) st4)))"
| "absearch_lmr E node ply b' newDepth L st =
     (if lmr_applies node L
      then (case absearch E NonPV (lmr_rdepth E node newDepth L st) (- v_alpha L - 1) (- v_alpha L)
                   (ply + 1) b' st of
              (s, st') \<Rightarrow> (- s, - s > v_alpha L \<and> lmr_rdepth E node newDepth L st < newDepth, st'))
      else (v_score L, node = NonPV \<or> uint (v_madeMoves L) > 1, st))"
| "absearch_full E doFull ply b' newDepth L score1 st =
     (if doFull
      then (case absearch E NonPV newDepth (- v_alpha L - 1) (- v_alpha L) (ply + 1) b' st of
              (s, st') \<Rightarrow> (- s, st'))
      else (score1, st))"
| "absearch_pvs E node ply b' newDepth L score2 st =
     (if node \<noteq> NonPV \<and> ((score2 > v_alpha L \<and> score2 < v_beta L) \<or> v_madeMoves L = 1)
      then (case absearch E PV newDepth (- v_beta L) (- v_alpha L) (ply + 1) b' st of
              (s, st') \<Rightarrow> (- s, st'))
      else (score2, st))"
  by pat_completeness auto
termination
proof -
  have head: "ply < MAX_PLY (cfg E) \<and> stack st1 = stack st"
    if "absearch_head E node depth alpha beta ply b st = Inr (depth1, alpha1, beta1, st1)"
    for E :: "'b env" and node depth alpha beta ply b st depth1 alpha1 beta1 st1
  proof -
    have ls: "stack (snd (load_stopped s)) = stack s" for s
      by (simp add: load_stopped_def split: list.splits)
    have gt: "stack (snd (getTime s)) = stack s" for s
      by (simp add: getTime_def split: list.splits)
    have lr: "stack (snd (limitReached s)) = stack s" for s
      using ls [of s] gt [of "snd (load_stopped s)\<lparr>checkTime := 2047\<rparr>"]
        gt [of "s\<lparr>checkTime := 2047\<rparr>"]
      by (auto simp add: limitReached_def Let_def split: prod.splits if_splits)
    obtain lim st' where l: "limitReached st = (lim, st')" by (cases "limitReached st")
    have "stack st' = stack st" using lr [of st] l by simp
    then show ?thesis
      using that l
      by (auto simp add: absearch_head_def Let_def split: if_splits sum.splits prod.splits)
  qed
  show ?thesis
    by (relation "measures
      [\<lambda>x. case x of
          Inl (Inl (E, node, depth, alpha, beta, ply, b, st)) \<Rightarrow> 2 * nat (MAX_PLY (cfg E) - ply)
        | Inl (Inr (Inl (E, node, ply, b, excluded, L, st))) \<Rightarrow> node_rank E ply
        | Inl (Inr (Inr (E, node, ply, b, excluded, ms, L, st))) \<Rightarrow> node_rank E ply
        | Inr (Inl (Inl (E, node, ply, b, move, newDepth, L, st))) \<Rightarrow> node_rank E ply
        | Inr (Inl (Inr (E, node, ply, b', newDepth, L, st))) \<Rightarrow> node_rank E ply
        | Inr (Inr (Inl (E, doFull, ply, b', newDepth, L, score1, st))) \<Rightarrow> node_rank E ply
        | Inr (Inr (Inr (E, node, ply, b', newDepth, L, score2, st))) \<Rightarrow> node_rank E ply,
       \<lambda>x. case x of
          Inl (Inl (E, node, depth, alpha, beta, ply, b, st)) \<Rightarrow>
            (if ply < MAX_PLY (cfg E) \<and> excludedMove (stack st ply) = NO_MOVE then 1 else 0)
        | Inl (Inr (Inl (E, node, ply, b, excluded, L, st))) \<Rightarrow> of_bool (excluded = NO_MOVE)
        | Inl (Inr (Inr (E, node, ply, b, excluded, ms, L, st))) \<Rightarrow> of_bool (excluded = NO_MOVE)
        | Inr (Inl (Inl (E, node, ply, b, move, newDepth, L, st))) \<Rightarrow> 0
        | Inr (Inl (Inr (E, node, ply, b', newDepth, L, st))) \<Rightarrow> 0
        | Inr (Inr (Inl (E, doFull, ply, b', newDepth, L, score1, st))) \<Rightarrow> 0
        | Inr (Inr (Inr (E, node, ply, b', newDepth, L, score2, st))) \<Rightarrow> 0,
       \<lambda>x. case x of
          Inl (Inl (E, node, depth, alpha, beta, ply, b, st)) \<Rightarrow>
            (if ply < MAX_PLY (cfg E) then 5 else 0)
        | Inl (Inr (Inl (E, node, ply, b, excluded, L, st))) \<Rightarrow> 4
        | Inl (Inr (Inr (E, node, ply, b, excluded, ms, L, st))) \<Rightarrow> 3
        | Inr (Inl (Inl (E, node, ply, b, move, newDepth, L, st))) \<Rightarrow> 2
        | Inr (Inl (Inr (E, node, ply, b', newDepth, L, st))) \<Rightarrow> 0
        | Inr (Inr (Inl (E, doFull, ply, b', newDepth, L, score1, st))) \<Rightarrow> 0
        | Inr (Inr (Inr (E, node, ply, b', newDepth, L, score2, st))) \<Rightarrow> 0,
       \<lambda>x. case x of
          Inl (Inr (Inr (E, node, ply, b, excluded, ms, L, st))) \<Rightarrow> length ms
        | _ \<Rightarrow> 0]")
       (auto dest!: head simp add: singular_cond_def set_excluded_def node_rank_def)
qed

declare absearch.simps [simp del] absearch_moves.simps [simp del] absearch_loop.simps [simp del]
  absearch_move.simps [simp del] absearch_lmr.simps [simp del] absearch_full.simps [simp del]
  absearch_pvs.simps [simp del]

section \<open>Aspiration windows and the start of iterative deepening\<close>

text \<open>\<open>uciOutput\<close> (helper.cpp), as the line it prints.\<close>

definition uciOutput ::
  "config \<Rightarrow> int \<Rightarrow> int \<Rightarrow> 8 word \<Rightarrow> 64 word \<Rightarrow> 64 word \<Rightarrow> int \<Rightarrow> string \<Rightarrow> int \<Rightarrow> string" where
  "uciOutput K score depth seld nds tbHits time pv hf =
     ''info depth '' @ to_string depth
     @ '' seldepth '' @ to_string (uint seld)
     @ '' score '' @ outputScore K score
     @ '' tbhits '' @ to_string (uint tbHits)
     @ '' nodes '' @ to_string (uint nds)
     @ '' nps '' @ to_string (sint (ucast ((nds div word_of_int (time + 1)) * 1000) :: 32 word))
     @ '' hashfull '' @ to_string hf
     @ '' time '' @ to_string time
     @ '' pv'' @ pv"

definition getPV :: "'b env \<Rightarrow> search \<Rightarrow> string" where
  "getPV E st = concat (map (\<lambda>i. '' '' @ uciMove E (pvTable st 0 (int i))) [0..<nat (pvLength st 0)])"

text \<open>
  The loop of \<open>aspirationSearch\<close>. \<open>root\<close> is the search of the root with a window,
  \<open>absearch<Root>(depth, alpha, beta, ss)\<close> below. The loop has no bound of its own, so
  not returning is the value \<open>None\<close>. The result says whether the search was cut short
  (\<open>return 0\<close> before the output) and gives the score.
\<close>

partial_function (option) aspiration_loop ::
  "config \<Rightarrow> (Score \<Rightarrow> Score \<Rightarrow> search \<Rightarrow> Score \<times> search) \<Rightarrow> Score \<Rightarrow> Score \<Rightarrow> int \<Rightarrow> search
     \<Rightarrow> (bool \<times> Score \<times> search) option" where
  "aspiration_loop K root alpha0 beta0 delta st =
     (let alpha = (if alpha0 < - 3500 then - VALUE_INFINITE K else alpha0);
          beta = (if beta0 > 3500 then VALUE_INFINITE K else beta0);
          (result, st1) = root alpha beta st;
          (s, st2) = load_stopped st1
      in
      if s then Some (True, 0, st2)
      else if worker_id st2 = 0 \<and> l_nodes (limit st2) \<noteq> 0 \<and> nodes st2 \<ge> l_nodes (limit st2)
      then Some (True, 0, st2)
      else if result \<le> alpha then
        aspiration_loop K root (max (alpha - delta) (- VALUE_INFINITE K)) ((alpha + beta) sdiv 2)
          (delta + delta sdiv 2) st2
      else if result \<ge> beta then
        aspiration_loop K root alpha (min (beta + delta) (VALUE_INFINITE K)) (delta + delta sdiv 2) st2
      else Some (False, result, st2))"

definition aspirationSearch ::
  "'b env \<Rightarrow> 'b \<Rightarrow> int \<Rightarrow> Score \<Rightarrow> search \<Rightarrow> (Score \<times> search) option" where
  "aspirationSearch E b depth prevEval st =
     (let K = cfg E;
          delta = 30;
          alpha = (if depth \<ge> 9 then prevEval - delta else - VALUE_INFINITE K);
          beta = (if depth \<ge> 9 then prevEval + delta else VALUE_INFINITE K)
      in
      case aspiration_loop K (\<lambda>a be s. absearch E Root depth a be 0 b s) alpha beta delta st of
        None \<Rightarrow> None
      | Some (aborted, result, st1) \<Rightarrow>
          if aborted then Some (0, st1)
          else if worker_id st1 = 0 \<and> normalSearch st1 then
            (let (ms, st2) = getTime st1 in
             Some (result,
                   st2\<lparr>out := out st2 @
                      [Info (uciOutput K result depth (word_of_int (seldepth st2)) (getNodes E st2)
                               (getTbHits E st2) ms (getPV E st2) (hashfull E (tt_log st2)))]\<rparr>))
          else Some (result, st1))"

text \<open>
  The rules of the aspiration window in the words of the specification, to be compared
  with the loop above. A bound exceeding \<open>\<plusminus>3500\<close> is slackened to infinity. On a
  fail-low \<open>\<beta> = (\<alpha>+\<beta>)/2; \<alpha> = \<alpha> - \<delta>; \<delta> += \<delta>/2\<close>. On a fail-high
  \<open>\<beta> += \<delta>; \<delta> += \<delta>/2\<close>. (The specification has no clamp of the new bounds; the
  code has.)
\<close>

definition slacken :: "config \<Rightarrow> Score \<times> Score \<Rightarrow> Score \<times> Score" where
  "slacken K w =
     (case w of (alpha, beta) \<Rightarrow>
        (if alpha < - 3500 then - VALUE_INFINITE K else alpha,
         if 3500 < beta then VALUE_INFINITE K else beta))"

definition fail_low :: "Score \<times> Score \<times> int \<Rightarrow> Score \<times> Score \<times> int" where
  "fail_low w =
     (case w of (alpha, beta, delta) \<Rightarrow> (alpha - delta, (alpha + beta) sdiv 2, delta + delta sdiv 2))"

definition fail_high :: "Score \<times> Score \<times> int \<Rightarrow> Score \<times> Score \<times> int" where
  "fail_high w =
     (case w of (alpha, beta, delta) \<Rightarrow> (alpha, beta + delta, delta + delta sdiv 2))"

text \<open>
  The search with these rules, retried until the result lies strictly inside the window,
  for at most \<open>n\<close> searches of the root: \<open>None\<close> if \<open>n\<close> searches do not give such a
  result. A search that was stopped, or that ran into the node limit of the main worker,
  ends the retries with the score 0.
\<close>

fun aspiration_spec ::
  "config \<Rightarrow> (Score \<Rightarrow> Score \<Rightarrow> search \<Rightarrow> Score \<times> search) \<Rightarrow> nat \<Rightarrow> Score \<Rightarrow> Score \<Rightarrow> int \<Rightarrow> search
     \<Rightarrow> (bool \<times> Score \<times> search) option" where
  "aspiration_spec K root 0 alpha0 beta0 delta st = None"
| "aspiration_spec K root (Suc n) alpha0 beta0 delta st =
     (case slacken K (alpha0, beta0) of (alpha, beta) \<Rightarrow>
      case root alpha beta st of (result, st1) \<Rightarrow>
      case load_stopped st1 of (s, st2) \<Rightarrow>
        if s \<or> (worker_id st2 = 0 \<and> l_nodes (limit st2) \<noteq> 0 \<and> nodes st2 \<ge> l_nodes (limit st2))
        then Some (True, 0, st2)
        else if alpha < result \<and> result < beta then Some (False, result, st2)
        else if result \<le> alpha
        then (case fail_low (alpha, beta, delta) of (a, b, d) \<Rightarrow> aspiration_spec K root n a b d st2)
        else (case fail_high (alpha, beta, delta) of (a, b, d) \<Rightarrow> aspiration_spec K root n a b d st2))"

text \<open>
  What the termination of the retries is given: each of the first \<open>n\<close> searches of the
  root that such a run makes and that is not cut short returns a score strictly between
  \<open>-VALUE_INFINITE\<close> and \<open>VALUE_INFINITE\<close>.
\<close>

fun root_results_in_range ::
  "config \<Rightarrow> (Score \<Rightarrow> Score \<Rightarrow> search \<Rightarrow> Score \<times> search) \<Rightarrow> nat \<Rightarrow> Score \<Rightarrow> Score \<Rightarrow> int \<Rightarrow> search
     \<Rightarrow> bool" where
  "root_results_in_range K root 0 alpha0 beta0 delta st = True"
| "root_results_in_range K root (Suc n) alpha0 beta0 delta st =
     (case slacken K (alpha0, beta0) of (alpha, beta) \<Rightarrow>
      case root alpha beta st of (result, st1) \<Rightarrow>
      case load_stopped st1 of (s, st2) \<Rightarrow>
        if s \<or> (worker_id st2 = 0 \<and> l_nodes (limit st2) \<noteq> 0 \<and> nodes st2 \<ge> l_nodes (limit st2))
        then True
        else - VALUE_INFINITE K < result \<and> result < VALUE_INFINITE K \<and>
          (if alpha < result \<and> result < beta then True
           else if result \<le> alpha
           then (case fail_low (alpha, beta, delta) of
                   (a, b, d) \<Rightarrow> root_results_in_range K root n a b d st2)
           else (case fail_high (alpha, beta, delta) of
                   (a, b, d) \<Rightarrow> root_results_in_range K root n a b d st2)))"

text \<open>
  The part of \<open>iterativeDeepening\<close> before its loop: the effort table is cleared and the
  frames \<open>-2 .. MAX_PLY + 1\<close> are initialised. (The loop itself manages the time with
  floating-point factors and is not modelled.)
\<close>

definition iterativeDeepening_init :: "config \<Rightarrow> search \<Rightarrow> search" where
  "iterativeDeepening_init K st =
     st\<lparr>spentEffort := (\<lambda>f t. 0),
        stack := (\<lambda>i. if - 2 \<le> i \<and> i \<le> MAX_PLY K + 1
                      then \<lparr>currentmove = NO_MOVE, eval = 0, excludedMove = NO_MOVE\<rparr>
                      else stack st i)\<rparr>"

section \<open>Relations between the states before and after a search\<close>

text \<open>
  What \<open>qsearch\<close> may write to the table: depth 0, LOWER or UPPER, and never while the
  stop flag of a normal search is set.
\<close>

definition qstore :: "bool \<Rightarrow> tt_write \<Rightarrow> bool" where
  "qstore ns e =
     (w_depth e = 0 \<and> (w_flag e = LOWERBOUND \<or> w_flag e = UPPERBOUND) \<and> \<not> (ns \<and> w_stopped e))"

text \<open>
  What a call of \<open>qsearch\<close> does to the state, as far as the theorems need it: the kind
  of search, the use of tablebases, the stack and the history are as before, and the
  table has new entries that \<open>qsearch\<close> may write.
\<close>

definition qrel :: "search \<Rightarrow> search \<Rightarrow> bool" where
  "qrel st st' =
     (normalSearch st' = normalSearch st \<and> useTB st' = useTB st \<and> stack st' = stack st
      \<and> history st' = history st
      \<and> (\<exists>new. tt_log st' = tt_log st @ new \<and> list_all (qstore (normalSearch st)) new))"

text \<open>
  What \<open>absearch\<close> may write to the table. While the stop flag of a normal search is set
  it writes nothing but what the tablebase store writes: tablebases are in use, the
  entry has no move, and its depth is that of a node (at least 1) plus 6.
\<close>

definition astore :: "bool \<Rightarrow> bool \<Rightarrow> tt_write \<Rightarrow> bool" where
  "astore ns tb e = (ns \<and> w_stopped e \<longrightarrow> tb \<and> w_move e = NO_MOVE \<and> 7 \<le> w_depth e)"

text \<open>
  What a call of \<open>absearch\<close> at \<open>ply\<close> does to the state: the kind of search and the
  use of tablebases are as before, the frames below \<open>ply\<close> are as before, a bounded
  history stays bounded, and the table has new entries that \<open>absearch\<close> may write.
\<close>

definition arel :: "int \<Rightarrow> search \<Rightarrow> search \<Rightarrow> bool" where
  "arel ply st st' =
     (normalSearch st' = normalSearch st \<and> useTB st' = useTB st
      \<and> (\<forall>i<ply. stack st' i = stack st i)
      \<and> (history_bounded st \<longrightarrow> history_bounded st')
      \<and> (\<exists>new. tt_log st' = tt_log st @ new
                \<and> list_all (astore (normalSearch st) (useTB st)) new))"

text \<open>The state in which the move loop ends, whether it returns or runs out of moves.\<close>

definition loop_state :: "(Score \<times> search) + (alocals \<times> search) \<Rightarrow> search" where
  "loop_state r = (case r of Inl x \<Rightarrow> snd x | Inr x \<Rightarrow> snd x)"

text \<open>The order in which the aspiration loop ends: how far each bound is from 3500.\<close>

definition asp_rank :: "Score \<times> Score \<Rightarrow> nat \<times> nat" where
  "asp_rank w = (case w of (alpha, beta) \<Rightarrow>
     ((if alpha < - 3500 then 0 else nat (alpha + 3501)),
      (if beta > 3500 then 0 else nat (3501 - beta))))"

section \<open>A small position tree and a fresh worker, for evaluating the theorems\<close>

text \<open>
  Boards are numbered. Board 0 has two captures, 92 and 156, both onto square 28, where
  a rook stands; every other board has no move. Nobody is in check, nothing is drawn,
  the table never hits and the network says 20 on every board.
\<close>

definition sample_env :: "nat env" where
  "sample_env =
     \<lparr>cfg = sample_config,
      sideToMove = (\<lambda>b. if even b then White else Black),
      KingSQ = (\<lambda>b c. 4),
      isSquareAttacked = (\<lambda>b c sq. False),
      isRepetition = (\<lambda>b n. False),
      isDrawn = (\<lambda>b c. NONE),
      hashKey = (\<lambda>b. of_nat b),
      pieceAtB = (\<lambda>b sq. if sq = 28 then 3 else 12),
      nonPawnMat = (\<lambda>b c. True),
      see = (\<lambda>b m t. True),
      makeMove = (\<lambda>b m. 2 * b + (if m = 92 then 1 else 2)),
      makeNullMove = (\<lambda>b. 2 * b + 3),
      nnue_scaled = (\<lambda>b. 20),
      piece_count = (\<lambda>b. 32),
      TB_LARGEST = 0,
      tb_probe_wdl = (\<lambda>b. TB_FAILED),
      probeTT = (\<lambda>log key. (False, NO_MOVE, \<lparr>e_score = 0, e_depth = 0, e_flag = NONEBOUND\<rparr>)),
      qsearch_picker = (\<lambda>b st ply ttMove ttHit. if b = 0 then [92, 156] else []),
      absearch_picker = (\<lambda>b st ply root ttMove ttHit. if b = 0 then [92, 156] else []),
      reductions = (\<lambda>d m. 1),
      getNodes = nodes, getTbHits = tbhits, hashfull = (\<lambda>lg. int (length lg)),
      uciMove = (\<lambda>m. if m = 92 then ''e4d5'' else ''e4f5'')\<rparr>"

definition sample_search :: search where
  "sample_search =
     \<lparr>worker_id = 0, normalSearch = True, useTB = False, nodes = 0, tbhits = 0, seldepth = 0,
      limit = \<lparr>l_depth = 120, l_nodes = 0, optimum = 0, maximum = 0\<rparr>,
      searchmoves = [], checkTime = 0,
      pvTable = (\<lambda>i j. NO_MOVE), pvLength = (\<lambda>i. 0), killerMoves = (\<lambda>k i. NO_MOVE),
      history = (\<lambda>c f t. 0), spentEffort = (\<lambda>f t. 0),
      stack = (\<lambda>i. \<lparr>currentmove = NO_MOVE, eval = 0, excludedMove = NO_MOVE\<rparr>),
      stopped = False, stop_oracle = [], clock = [], tt_log = [], out = []\<rparr>"



text \<open>A datagen worker whose stop flag is set, and the locals of a node at depth 1.\<close>

definition datagen_search :: search where
  "datagen_search = sample_search\<lparr>normalSearch := False, stopped := True\<rparr>"


section \<open>The sample configuration, field by field\<close>

lemma sample_config_simps [simp]:
  "MAX_PLY sample_config = 120"
  "VALUE_MATE sample_config = 32000"
  "VALUE_INFINITE sample_config = 32001"
  "VALUE_NONE sample_config = 32002"
  "VALUE_MATE_IN_PLY sample_config = 31880"
  "VALUE_MATED_IN_PLY sample_config = - 31880"
  "VALUE_TB_WIN sample_config = 31880"
  "VALUE_TB_LOSS sample_config = - 31880"
  "VALUE_TB_WIN_IN_MAX_PLY sample_config = 31760"
  "VALUE_TB_LOSS_IN_MAX_PLY sample_config = - 31760"
  "NULL_MOVE sample_config = 65"
  "None_piece sample_config = 12"
  "NONETYPE sample_config = 6"
  "piece_values_EG sample_config t = [94, 281, 297, 512, 936, 0, 0] ! min t 6"
  "from_sq sample_config m = (m div 64) mod 64"
  "to_sq sample_config m = m mod 64"
  "promoted sample_config m = (4096 \<le> m)"
  "type_of_piece sample_config p = (if p = 12 then 6 else p mod 6)"
  by (simp_all add: sample_config_def)

lemma sample_env_simps [simp]:
  "cfg sample_env = sample_config"
  "sideToMove sample_env b = (if even b then White else Black)"
  "KingSQ sample_env b c = 4"
  "isSquareAttacked sample_env b c sq = False"
  "isRepetition sample_env b n = False"
  "isDrawn sample_env b ic = NONE"
  "hashKey sample_env b = of_nat b"
  "pieceAtB sample_env b sq = (if sq = 28 then 3 else 12)"
  "nonPawnMat sample_env b c = True"
  "see sample_env b m t = True"
  "makeMove sample_env b m = 2 * b + (if m = 92 then 1 else 2)"
  "makeNullMove sample_env b = 2 * b + 3"
  "nnue_scaled sample_env b = 20"
  "piece_count sample_env b = 32"
  "TB_LARGEST sample_env = 0"
  "tb_probe_wdl sample_env b = TB_FAILED"
  "probeTT sample_env lg key = (False, NO_MOVE, \<lparr>e_score = 0, e_depth = 0, e_flag = NONEBOUND\<rparr>)"
  "qsearch_picker sample_env b st ply ttMove ttHit = (if b = 0 then [92, 156] else [])"
  "absearch_picker sample_env b st ply root ttMove ttHit = (if b = 0 then [92, 156] else [])"
  "reductions sample_env d k = 1"
  "getNodes sample_env = nodes"
  "getTbHits sample_env = tbhits"
  "hashfull sample_env lg = int (length lg)"
  by (simp_all add: sample_env_def)

lemma sample_search_simps [simp]:
  "worker_id sample_search = 0"
  "normalSearch sample_search = True"
  "useTB sample_search = False"
  "nodes sample_search = 0"
  "tbhits sample_search = 0"
  "seldepth sample_search = 0"
  "limit sample_search = \<lparr>l_depth = 120, l_nodes = 0, optimum = 0, maximum = 0\<rparr>"
  "searchmoves sample_search = []"
  "checkTime sample_search = 0"
  "pvTable sample_search i j = NO_MOVE"
  "pvLength sample_search i = 0"
  "killerMoves sample_search k i = NO_MOVE"
  "history sample_search c f t = 0"
  "spentEffort sample_search f t = 0"
  "stack sample_search i = \<lparr>currentmove = NO_MOVE, eval = 0, excludedMove = NO_MOVE\<rparr>"
  "stopped sample_search = False"
  "stop_oracle sample_search = []"
  "clock sample_search = []"
  "tt_log sample_search = []"
  "out sample_search = []"
  by (simp_all add: sample_search_def)

lemma datagen_search_simps [simp]:
  "normalSearch datagen_search = False"
  "stopped datagen_search = True"
  "tt_log datagen_search = []"
  "worker_id datagen_search = 0"
  "limit datagen_search = \<lparr>l_depth = 120, l_nodes = 0, optimum = 0, maximum = 0\<rparr>"
  "nodes datagen_search = 0"
  "checkTime datagen_search = 0"
  by (simp_all add: datagen_search_def)

section \<open>Score algebra: the transposition-table round trip\<close>

lemma scoreFromTT_scoreToTT:
  "0 \<le> ply \<Longrightarrow> scoreFromTT K (scoreToTT K s ply) ply = s"
  by (simp add: scoreFromTT_def scoreToTT_def)

text \<open>
  C1, as the code and the spec's definitions have it. With \<open>scoreToTT\<close> and
  \<open>scoreFromTT\<close> as the spec defines them and the mated threshold below the mate
  threshold, \<open>scoreToTT(scoreFromTT(x, ply), ply) = x\<close> holds for a ply \<open>\<ge> 0\<close> exactly
  when \<open>x\<close> is not one of the \<open>ply\<close> scores just inside a mate range
  (\<open>MATE_IN_MAX_PLY \<le> x < MATE_IN_MAX_PLY + ply\<close>, or
  \<open>MATED_IN_MAX_PLY - ply < x \<le> MATED_IN_MAX_PLY\<close>). Every score that \<open>scoreToTT\<close>
  itself produces, which is what a store writes, is outside both bands, so the law
  holds for every stored score.
\<close>

theorem scoreToTT_scoreFromTT_roundtrip:
  assumes "0 \<le> ply" and "VALUE_MATED_IN_PLY K < VALUE_MATE_IN_PLY K"
  shows "(scoreToTT K (scoreFromTT K x ply) ply = x) =
           ((x < VALUE_MATE_IN_PLY K \<or> VALUE_MATE_IN_PLY K + ply \<le> x) \<and>
            (VALUE_MATED_IN_PLY K < x \<or> x \<le> VALUE_MATED_IN_PLY K - ply)) \<and>
         scoreToTT K (scoreFromTT K (scoreToTT K s ply) ply) ply = scoreToTT K s ply"
proof
  show "(scoreToTT K (scoreFromTT K x ply) ply = x) =
           ((x < VALUE_MATE_IN_PLY K \<or> VALUE_MATE_IN_PLY K + ply \<le> x) \<and>
            (VALUE_MATED_IN_PLY K < x \<or> x \<le> VALUE_MATED_IN_PLY K - ply))"
    using assms by (auto simp add: scoreToTT_def scoreFromTT_def)
  show "scoreToTT K (scoreFromTT K (scoreToTT K s ply) ply) ply = scoreToTT K s ply"
    using assms(1) by (simp add: scoreFromTT_scoreToTT)
qed

theorem scoreToTT_scoreFromTT_roundtrip_witness:
  "scoreToTT sample_config (scoreFromTT sample_config 31990 7) 7 = 31990 \<and>
   scoreToTT sample_config (scoreFromTT sample_config (scoreToTT sample_config (- 31995) 7) 7) 7
     = scoreToTT sample_config (- 31995) 7"
  using scoreToTT_scoreFromTT_roundtrip [of 7 sample_config 31990 "- 31995"]
  by simp

text \<open>
  The round trip as first stated, for every score \<open>x\<close>, fails at the mate threshold
  itself: at ply 1 the score 31880 is loaded as 31879, which is no longer in the mate
  range and is stored back unchanged.
\<close>

theorem scoreToTT_scoreFromTT_counterexample:
  "scoreToTT sample_config (scoreFromTT sample_config 31880 1) 1 \<noteq> 31880"
  by (simp add: scoreToTT_def scoreFromTT_def)

section \<open>The score formatter rounds small scores to zero\<close>

lemma to_string_0: "to_string 0 = ''0''"
  by (simp add: to_string_def digits.simps digit_char_def)

text \<open>
  C10. \<open>outputScore\<close> prints \<open>cp 0\<close> for every score of magnitude at most 4: the score
  is replaced by 0 first, and 0 is in neither mate range (the mated threshold is
  negative and the mate threshold positive).
\<close>

theorem outputScore_small:
  assumes "VALUE_MATED_IN_PLY K < 0" and "0 < VALUE_MATE_IN_PLY K" and "\<bar>s\<bar> \<le> 4"
  shows "outputScore K s = ''cp 0''"
  using assms by (simp add: outputScore_def to_string_0)

theorem outputScore_small_witness:
  "outputScore sample_config (- 4) = ''cp 0'' \<and> outputScore sample_config 3 = ''cp 0''"
  using outputScore_small [of sample_config "- 4"] outputScore_small [of sample_config 3]
  by simp

section \<open>The butterfly history stays bounded\<close>

lemma hh_div_facts:
  fixes H a :: int
  assumes "0 \<le> H" and "0 \<le> a" and "a \<le> 16384"
  shows "0 \<le> (H * a) div 16384" and "(H * a) div 16384 \<le> H"
    and "16384 \<le> H \<Longrightarrow> a \<le> (H * a) div 16384"
proof -
  show "0 \<le> (H * a) div 16384" using assms by (simp add: pos_imp_zdiv_nonneg_iff)
  have "H * a \<le> H * 16384" using assms by (simp add: mult_left_mono)
  then have "(H * a) div 16384 \<le> (H * 16384) div 16384" by (rule zdiv_mono1) simp
  then show "(H * a) div 16384 \<le> H" by simp
  assume "16384 \<le> H"
  then have "16384 * a \<le> H * a" using assms by (simp add: mult_right_mono)
  then have "(16384 * a) div 16384 \<le> (H * a) div 16384" by (rule zdiv_mono1) simp
  then show "a \<le> (H * a) div 16384" by simp
qed

text \<open>One update \<open>H += c - H * |c| / 16384\<close>, with the division truncating.\<close>

lemma hh_step_bound:
  fixes H c :: int
  assumes "\<bar>H\<bar> \<le> 18384" and "\<bar>c\<bar> \<le> 2000"
  shows "\<bar>H + (c - (H * \<bar>c\<bar>) sdiv 16384)\<bar> \<le> 18384"
proof (cases "0 \<le> H")
  case True
  define q where "q = (H * \<bar>c\<bar>) div 16384"
  have sd: "(H * \<bar>c\<bar>) sdiv 16384 = q"
    using True
    by (simp add: signed_divide_int_def q_def sgn_if abs_mult mult_less_0_iff zero_le_mult_iff)
  have f: "0 \<le> q" "q \<le> H" "16384 \<le> H \<Longrightarrow> \<bar>c\<bar> \<le> q"
    using hh_div_facts [of H "\<bar>c\<bar>"] True assms unfolding q_def by auto
  show ?thesis unfolding sd using f assms True by (cases "16384 \<le> H") auto
next
  case False
  define q where "q = ((- H) * \<bar>c\<bar>) div 16384"
  have np: "H * \<bar>c\<bar> \<le> 0" using False by (simp add: mult_nonpos_nonneg)
  then have ab: "\<bar>H * \<bar>c\<bar>\<bar> = (- H) * \<bar>c\<bar>" by simp
  have sd: "(H * \<bar>c\<bar>) sdiv 16384 = - q"
    unfolding signed_divide_int_def ab using np by (simp add: q_def sgn_if)
  have f: "0 \<le> q" "q \<le> - H" "16384 \<le> - H \<Longrightarrow> \<bar>c\<bar> \<le> q"
    using hh_div_facts [of "- H" "\<bar>c\<bar>"] False assms unfolding q_def by auto
  show ?thesis unfolding sd using f assms False by (cases "16384 \<le> - H") auto
qed

lemma updateHistoryBonus_bounded:
  assumes "history_bounded st" and "\<bar>bns\<bar> \<le> 2000"
  shows "history_bounded (updateHistoryBonus E b move bns st)"
proof -
  have old: "\<bar>history st c f t\<bar> \<le> 18384" for c f t
    using assms(1) by (simp add: history_bounded_def)
  have new: "\<bar>history st c f t + (bns - (history st c f t * \<bar>bns\<bar>) sdiv 16384)\<bar> \<le> 18384"
    for c f t
    using hh_step_bound [OF old assms(2)] .
  show ?thesis
    unfolding history_bounded_def updateHistoryBonus_def getHistory_def Let_def
    using old new by (simp add: fun_upd_def)
qed

lemma updateHistory_loop_bounded:
  assumes "\<bar>bns\<bar> \<le> 2000"
  shows "history_bounded st \<Longrightarrow> history_bounded (updateHistory_loop E b bestmove bns ms st)"
proof (induction ms arbitrary: st)
  case Nil
  then show ?case by simp
next
  case (Cons m ms)
  have "history_bounded (updateHistoryBonus E b m (- bns) st)"
    using Cons.prems assms by (intro updateHistoryBonus_bounded) simp_all
  then show ?case using Cons by simp
qed

lemma bonus_range: "0 \<le> depth \<Longrightarrow> \<bar>bonus depth\<bar> \<le> 2000"
  by (simp add: bonus_def)

lemma killers_history_bounded:
  "history_bounded (st\<lparr>killerMoves := k\<rparr>) = history_bounded st"
  by (simp add: history_bounded_def)

lemma updateAllHistories_keeps_bound:
  assumes "0 \<le> depth" and "history_bounded st"
  shows "history_bounded (updateAllHistories E b bestMove best beta depth quiets quietCount ply st)"
proof -
  have r: "\<bar>bonus depth\<bar> \<le> 2000" using assms(1) by (rule bonus_range)
  have "history_bounded (updateHistory E b bestMove (bonus depth) depth quiets quietCount st')"
    if "history_bounded st'" for st'
    unfolding updateHistory_def Let_def
    using that r by (auto intro!: updateHistory_loop_bounded updateHistoryBonus_bounded)
  then show ?thesis
    using assms(2) by (simp add: updateAllHistories_def Let_def killers_history_bounded)
qed

text \<open>
  C9. If every history entry has magnitude at most \<open>16384 + 2000\<close> before a call of
  \<open>updateAllHistories\<close>, every entry has after it, whatever the best move, the scores,
  the quiets tried and the board are. The depth is the remaining depth of the node whose
  move loop makes the call, which is at least 1 there; the theorem asks only that it is
  not negative, so that \<open>bonus\<close> is between 0 and 2000.
\<close>

theorem updateAllHistories_bounded:
  assumes "0 \<le> depth" and "history_bounded st"
  shows "history_bounded (updateAllHistories E b bestMove best beta depth quiets quietCount ply st)"
  using assms by (rule updateAllHistories_keeps_bound)

theorem updateAllHistories_bounded_witness:
  "history_bounded sample_search \<and>
   history_bounded (updateAllHistories sample_env 0 70 50 40 3 (\<lambda>i. 71 + i) 2 0 sample_search) \<and>
   history (updateAllHistories sample_env 0 70 50 40 3 (\<lambda>i. 71 + i) 2 0 sample_search) White 1 6 = 465"
proof -
  have h: "history_bounded sample_search" by (simp add: history_bounded_def)
  have "history_bounded (updateAllHistories sample_env 0 70 50 40 3 (\<lambda>i. 71 + i) 2 0 sample_search)"
    using updateAllHistories_bounded [of 3 sample_search sample_env 0 70 50 40 "\<lambda>i. 71 + i" 2 0] h
    by simp
  moreover have "history (updateAllHistories sample_env 0 70 50 40 3 (\<lambda>i. 71 + i) 2 0 sample_search)
      White 1 6 = 465"
    by (simp add: updateAllHistories_def updateHistory_def updateHistoryBonus_def getHistory_def
        bonus_def Let_def upt_rec signed_divide_int_def)
  ultimately show ?thesis using h by simp
qed

section \<open>The limit check\<close>

lemma load_stopped_fields:
  "worker_id (snd (load_stopped st)) = worker_id st"
  "normalSearch (snd (load_stopped st)) = normalSearch st"
  "limit (snd (load_stopped st)) = limit st"
  "nodes (snd (load_stopped st)) = nodes st"
  "checkTime (snd (load_stopped st)) = checkTime st"
  "clock (snd (load_stopped st)) = clock st"
  "stopped (snd (load_stopped st)) = fst (load_stopped st)"
  by (simp_all add: load_stopped_def split: list.splits)

text \<open>
  C8. A worker other than the main one reaches its limit exactly when the search is a
  normal search and the stop flag, as it loads it, is set: \<open>limitReached\<close> is that load
  and nothing else, and leaves \<open>checkTime\<close> and the clock untouched. The main worker,
  when the stop flag and the node limit do not end the call, decrements \<open>checkTime\<close>;
  while the counter stays positive it returns false without reading the clock, and
  otherwise it sets the counter to 2047 and returns whether a time limit is set and the
  elapsed time has reached \<open>limit.time.maximum\<close>.
\<close>

theorem limitReached_helper_and_main:
  "(worker_id st \<noteq> 0 \<longrightarrow>
      limitReached st = (if normalSearch st then load_stopped st else (False, st)) \<and>
      fst (limitReached st) = (normalSearch st \<and> stopped (snd (limitReached st))) \<and>
      checkTime (snd (limitReached st)) = checkTime st \<and>
      clock (snd (limitReached st)) = clock st) \<and>
   (worker_id st = 0 \<and> \<not> (normalSearch st \<and> fst (load_stopped st)) \<and>
    \<not> (l_nodes (limit st) \<noteq> 0 \<and> l_nodes (limit st) \<le> nodes st) \<longrightarrow>
      (if checkTime st - 1 > 0
       then fst (limitReached st) = False \<and> checkTime (snd (limitReached st)) = checkTime st - 1
            \<and> clock (snd (limitReached st)) = clock st
       else checkTime (snd (limitReached st)) = 2047 \<and>
            fst (limitReached st) = (maximum (limit st) \<noteq> 0 \<and> fst (getTime st) \<ge> maximum (limit st))))"
proof (intro conjI impI)
  assume w: "worker_id st \<noteq> 0"
  show e: "limitReached st = (if normalSearch st then load_stopped st else (False, st))"
  proof (cases "normalSearch st")
    case True
    obtain s st1 where ls: "load_stopped st = (s, st1)" by (cases "load_stopped st")
    have "worker_id st1 = worker_id st" using load_stopped_fields(1) [of st] ls by simp
    then show ?thesis using w True ls by (simp add: limitReached_def)
  next
    case False
    then show ?thesis using w by (simp add: limitReached_def)
  qed
  show "fst (limitReached st) = (normalSearch st \<and> stopped (snd (limitReached st)))"
    unfolding e by (simp add: load_stopped_fields)
  show "checkTime (snd (limitReached st)) = checkTime st"
    unfolding e by (simp add: load_stopped_fields)
  show "clock (snd (limitReached st)) = clock st"
    unfolding e by (simp add: load_stopped_fields)
next
  assume a: "worker_id st = 0 \<and> \<not> (normalSearch st \<and> fst (load_stopped st)) \<and>
    \<not> (l_nodes (limit st) \<noteq> 0 \<and> l_nodes (limit st) \<le> nodes st)"
  define st1 where "st1 = (if normalSearch st then snd (load_stopped st) else st)"
  have f: "worker_id st1 = 0" "limit st1 = limit st" "nodes st1 = nodes st"
    "checkTime st1 = checkTime st" "clock st1 = clock st"
    using a by (simp_all add: st1_def load_stopped_fields)
  show "if checkTime st - 1 > 0
       then fst (limitReached st) = False \<and> checkTime (snd (limitReached st)) = checkTime st - 1
            \<and> clock (snd (limitReached st)) = clock st
       else checkTime (snd (limitReached st)) = 2047 \<and>
            fst (limitReached st) = (maximum (limit st) \<noteq> 0 \<and> fst (getTime st) \<ge> maximum (limit st))"
  proof (cases "normalSearch st")
    case True
    obtain s st' where ls: "load_stopped st = (s, st')" by (cases "load_stopped st")
    have s: "s = False" using a True ls by simp
    have st': "st' = st1" using True ls by (simp add: st1_def)
    show ?thesis
      using a f True ls s st'
      by (cases "clock st") (auto simp add: limitReached_def Let_def getTime_def split: prod.splits)
  next
    case False
    then have st': "st1 = st" by (simp add: st1_def)
    show ?thesis
      using a False
      by (cases "clock st") (auto simp add: limitReached_def Let_def getTime_def split: prod.splits)
  qed
qed

theorem limitReached_helper_and_main_witness:
  "fst (limitReached (sample_search\<lparr>worker_id := 1, stopped := True,
          limit := \<lparr>l_depth = 120, l_nodes = 1, optimum = 1, maximum = 1\<rparr>, clock := [5000]\<rparr>)) = True \<and>
   fst (limitReached (sample_search\<lparr>worker_id := 1,
          limit := \<lparr>l_depth = 120, l_nodes = 1, optimum = 1, maximum = 1\<rparr>, clock := [5000]\<rparr>)) = False \<and>
   fst (limitReached (sample_search\<lparr>clock := [5000],
          limit := \<lparr>l_depth = 120, l_nodes = 0, optimum = 1000, maximum = 2000\<rparr>\<rparr>)) = True \<and>
   checkTime (snd (limitReached (sample_search\<lparr>clock := [5000],
          limit := \<lparr>l_depth = 120, l_nodes = 0, optimum = 1000, maximum = 2000\<rparr>\<rparr>))) = 2047"
  using
    limitReached_helper_and_main [of "sample_search\<lparr>worker_id := 1, stopped := True,
          limit := \<lparr>l_depth = 120, l_nodes = 1, optimum = 1, maximum = 1\<rparr>, clock := [5000]\<rparr>"]
    limitReached_helper_and_main [of "sample_search\<lparr>worker_id := 1,
          limit := \<lparr>l_depth = 120, l_nodes = 1, optimum = 1, maximum = 1\<rparr>, clock := [5000]\<rparr>"]
    limitReached_helper_and_main [of "sample_search\<lparr>clock := [5000],
          limit := \<lparr>l_depth = 120, l_nodes = 0, optimum = 1000, maximum = 2000\<rparr>\<rparr>"]
  by (simp add: load_stopped_def getTime_def)

section \<open>Quiescence search: what it stores and what it prunes\<close>

lemma qrel_refl: "qrel st st"
  by (simp add: qrel_def)

lemma qrel_trans: "qrel a b \<Longrightarrow> qrel b c \<Longrightarrow> qrel a c"
  by (auto simp add: qrel_def)

lemma qrel_same:
  "normalSearch st' = normalSearch st \<Longrightarrow> stack st' = stack st \<Longrightarrow> history st' = history st
     \<Longrightarrow> tt_log st' = tt_log st \<Longrightarrow> useTB st' = useTB st \<Longrightarrow> qrel st st'"
  by (simp add: qrel_def)

lemma load_stopped_same:
  "normalSearch (snd (load_stopped st)) = normalSearch st"
  "stack (snd (load_stopped st)) = stack st"
  "history (snd (load_stopped st)) = history st"
  "tt_log (snd (load_stopped st)) = tt_log st"
  "stopped (snd (load_stopped st)) = fst (load_stopped st)"
  "useTB (snd (load_stopped st)) = useTB st"
  by (simp_all add: load_stopped_def split: list.splits)

lemma getTime_same:
  "normalSearch (snd (getTime st)) = normalSearch st"
  "stack (snd (getTime st)) = stack st"
  "history (snd (getTime st)) = history st"
  "tt_log (snd (getTime st)) = tt_log st"
  "stopped (snd (getTime st)) = stopped st"
  "useTB (snd (getTime st)) = useTB st"
  by (simp_all add: getTime_def split: list.splits)

lemma limitReached_same:
  "normalSearch (snd (limitReached st)) = normalSearch st"
  "stack (snd (limitReached st)) = stack st"
  "history (snd (limitReached st)) = history st"
  "tt_log (snd (limitReached st)) = tt_log st"
  "useTB (snd (limitReached st)) = useTB st"
proof -
  obtain s st1 where ls: "load_stopped st = (s, st1)" by (cases "load_stopped st")
  have l: "normalSearch st1 = normalSearch st" "stack st1 = stack st" "history st1 = history st"
    "tt_log st1 = tt_log st" "useTB st1 = useTB st"
    using load_stopped_same [of st] ls by simp_all
  obtain ms st4 where g1: "getTime (st1\<lparr>checkTime := checkTime st1 - 1, checkTime := 2047\<rparr>) = (ms, st4)"
    by (cases "getTime (st1\<lparr>checkTime := checkTime st1 - 1, checkTime := 2047\<rparr>)")
  have g1': "normalSearch st4 = normalSearch st" "stack st4 = stack st" "history st4 = history st"
    "tt_log st4 = tt_log st" "useTB st4 = useTB st"
    using getTime_same [of "st1\<lparr>checkTime := checkTime st1 - 1, checkTime := 2047\<rparr>"] g1 l by simp_all
  obtain ms' st5 where g2: "getTime (st\<lparr>checkTime := checkTime st - 1, checkTime := 2047\<rparr>) = (ms', st5)"
    by (cases "getTime (st\<lparr>checkTime := checkTime st - 1, checkTime := 2047\<rparr>)")
  have g2': "normalSearch st5 = normalSearch st" "stack st5 = stack st" "history st5 = history st"
    "tt_log st5 = tt_log st" "useTB st5 = useTB st"
    using getTime_same [of "st\<lparr>checkTime := checkTime st - 1, checkTime := 2047\<rparr>"] g2 by simp_all
  show "normalSearch (snd (limitReached st)) = normalSearch st"
    "stack (snd (limitReached st)) = stack st"
    "history (snd (limitReached st)) = history st"
    "tt_log (snd (limitReached st)) = tt_log st"
    "useTB (snd (limitReached st)) = useTB st"
    using ls l g1 g1' g2 g2' by (simp_all add: limitReached_def Let_def)
qed

lemma limitReached_not_stopped:
  "\<not> fst (limitReached st) \<Longrightarrow> \<not> (normalSearch st \<and> stopped (snd (limitReached st)))"
proof -
  assume a: "\<not> fst (limitReached st)"
  obtain s st1 where ls: "load_stopped st = (s, st1)" by (cases "load_stopped st")
  have l: "stopped st1 = s" using load_stopped_same(5) [of st] ls by simp
  obtain ms st4 where g1: "getTime (st1\<lparr>checkTime := checkTime st1 - 1, checkTime := 2047\<rparr>) = (ms, st4)"
    by (cases "getTime (st1\<lparr>checkTime := checkTime st1 - 1, checkTime := 2047\<rparr>)")
  have g1': "stopped st4 = s"
    using getTime_same(5) [of "st1\<lparr>checkTime := checkTime st1 - 1, checkTime := 2047\<rparr>"] g1 l by simp
  show ?thesis
    using a ls l g1 g1' by (auto simp add: limitReached_def Let_def split: if_splits)
qed

lemma qsearch_entry_qrel:
  "qsearch_entry E node alpha beta ply b st = Inl (v, st') \<Longrightarrow> qrel st st'"
  "qsearch_entry E node alpha beta ply b st = Inr (ms, L, st') \<Longrightarrow> qrel st st'"
proof -
  obtain lim st1 where l: "limitReached st = (lim, st1)" by (cases "limitReached st")
  have q: "qrel st st1" using limitReached_same [of st] l by (intro qrel_same) simp_all
  show "qsearch_entry E node alpha beta ply b st = Inl (v, st') \<Longrightarrow> qrel st st'"
    using l q by (auto simp add: qsearch_entry_def Let_def split: if_splits prod.splits)
  show "qsearch_entry E node alpha beta ply b st = Inr (ms, L, st') \<Longrightarrow> qrel st st'"
    using l q by (auto simp add: qsearch_entry_def Let_def split: if_splits prod.splits)
qed

lemma qsearch_exit_qrel: "qrel st (snd (qsearch_exit E beta ply b L st))"
proof (cases "normalSearch st")
  case True
  obtain s st1 where ls: "load_stopped st = (s, st1)" by (cases "load_stopped st")
  have l: "normalSearch st1 = normalSearch st" "stack st1 = stack st" "history st1 = history st"
    "tt_log st1 = tt_log st" "stopped st1 = s" "useTB st1 = useTB st"
    using load_stopped_same [of st] ls by simp_all
  show ?thesis using True ls l
    by (simp add: qsearch_exit_def Let_def qrel_def storeEntry_def qstore_def)
next
  case False
  then show ?thesis
    by (simp add: qsearch_exit_def Let_def qrel_def storeEntry_def qstore_def)
qed

lemma nodes_qrel: "qrel st (st\<lparr>nodes := n\<rparr>)"
  by (simp add: qrel_def)

lemma qsearch_qrel:
  "qrel st (snd (qsearch E node alpha beta ply b st))"
  "qrel st (snd (qsearch_loop E node beta ply b ms L st))"
proof (induction E node alpha beta ply b st and E node beta ply b ms L st
    rule: qsearch_qsearch_loop.induct)
  case (1 E node alpha beta ply b st)
  show ?case
  proof (cases "qsearch_entry E node alpha beta ply b st")
    case (Inl r)
    then show ?thesis
      using qsearch_entry_qrel(1) [of E node alpha beta ply b st "fst r" "snd r"]
      by (simp add: qsearch.simps)
  next
    case (Inr x)
    obtain moves L st1 where x: "x = (moves, L, st1)" by (cases x)
    obtain L' st2 where lp: "qsearch_loop E node beta ply b moves L st1 = (L', st2)"
      by (cases "qsearch_loop E node beta ply b moves L st1")
    have a: "qrel st st1"
      using qsearch_entry_qrel(2) [of E node alpha beta ply b st moves L st1] Inr x by simp
    have b: "qrel st1 st2" using "1.IH" [OF Inr x [THEN sym] refl] lp
      by simp
    have c: "qrel st2 (snd (qsearch_exit E beta ply b L' st2))" by (rule qsearch_exit_qrel)
    show ?thesis
      using qrel_trans [OF qrel_trans [OF a b] c] Inr x lp by (simp add: qsearch.simps)
  qed
next
  case (2 E node beta ply b L st)
  show ?case by (simp add: qrel_refl)
next
  case (3 E node beta ply b move rest L st)
  show ?case
  proof (cases "move = NO_MOVE")
    case True
    then show ?thesis by (simp add: qrel_refl)
  next
    case nm: False
    show ?thesis
    proof (cases "qsearch_prune E b (q_bestValue L) (q_alpha L) move")
      case True
      then show ?thesis using "3.IH"(1) [OF nm True] nm by simp
    next
      case np: False
      obtain s st1 where q: "qsearch E node (- beta) (- q_alpha L) (ply + 1) (makeMove E b move)
          (st\<lparr>nodes := nodes st + 1\<rparr>) = (s, st1)"
        by (cases "qsearch E node (- beta) (- q_alpha L) (ply + 1) (makeMove E b move)
          (st\<lparr>nodes := nodes st + 1\<rparr>)")
      have a: "qrel st st1"
        using qrel_trans [OF nodes_qrel "3.IH"(2) [OF nm np]] q by simp
      note ih = "3.IH"(3-5) [OF nm np q [symmetric] refl]
      have r: "qrel st st2" if "qrel st1 st2" for st2
        using qrel_trans [OF a that] .
      show ?thesis
        using nm np q a ih by (auto simp add: Let_def intro: r)
    qed
  qed
qed

text \<open>
  C2. Every entry a call of \<open>qsearch\<close> writes, in its own store or in the calls below it,
  has depth 0 and the bound LOWER or UPPER, never EXACT. A call that reaches its move
  loop and finds the stop flag unset afterwards (or is a datagen search) returns the
  \<open>bestValue\<close> of the loop and writes one entry last: depth 0, the score
  \<open>scoreToTT(bestValue, ply)\<close>, LOWER if \<open>bestValue \<ge> beta\<close> and UPPER otherwise.
\<close>

theorem qsearch_store:
  "(\<exists>new. tt_log (snd (qsearch E node alpha beta ply b st)) = tt_log st @ new \<and>
          list_all (\<lambda>e. w_depth e = 0 \<and> (w_flag e = LOWERBOUND \<or> w_flag e = UPPERBOUND)) new) \<and>
   (qsearch_entry E node alpha beta ply b st = Inr (moves, L, st1) \<and>
    qsearch_loop E node beta ply b moves L st1 = (L', st2) \<and>
    (\<not> normalSearch st2 \<or> \<not> fst (load_stopped st2)) \<longrightarrow>
      fst (qsearch E node alpha beta ply b st) = q_bestValue L' \<and>
      tt_log (snd (qsearch E node alpha beta ply b st)) = tt_log st2 @
        [\<lparr>w_depth = 0,
          w_score = scoreToTT (cfg E) (fst (qsearch E node alpha beta ply b st)) ply,
          w_flag = (if fst (qsearch E node alpha beta ply b st) \<ge> beta then LOWERBOUND else UPPERBOUND),
          w_key = hashKey E b, w_move = q_bestMove L',
          w_stopped = (stopped st2 \<and> \<not> normalSearch st2)\<rparr>])"
proof (intro conjI impI)
  have "qrel st (snd (qsearch E node alpha beta ply b st))" by (rule qsearch_qrel)
  then obtain new where n: "tt_log (snd (qsearch E node alpha beta ply b st)) = tt_log st @ new"
    "list_all (qstore (normalSearch st)) new"
    by (auto simp add: qrel_def)
  have "list_all (\<lambda>e. w_depth e = 0 \<and> (w_flag e = LOWERBOUND \<or> w_flag e = UPPERBOUND)) new"
    using n(2) by (simp add: list_all_iff qstore_def)
  then show "\<exists>new. tt_log (snd (qsearch E node alpha beta ply b st)) = tt_log st @ new \<and>
          list_all (\<lambda>e. w_depth e = 0 \<and> (w_flag e = LOWERBOUND \<or> w_flag e = UPPERBOUND)) new"
    using n(1) by blast
next
  assume a: "qsearch_entry E node alpha beta ply b st = Inr (moves, L, st1) \<and>
    qsearch_loop E node beta ply b moves L st1 = (L', st2) \<and>
    (\<not> normalSearch st2 \<or> \<not> fst (load_stopped st2))"
  have q: "qsearch E node alpha beta ply b st = qsearch_exit E beta ply b L' st2"
    using a by (simp add: qsearch.simps)
  obtain s st3 where ls: "load_stopped st2 = (s, st3)" by (cases "load_stopped st2")
  have l: "tt_log st3 = tt_log st2" "stopped st3 = s"
    using load_stopped_same(4,5) [of st2] ls by simp_all
  show "fst (qsearch E node alpha beta ply b st) = q_bestValue L'"
    unfolding q using a ls by (simp add: qsearch_exit_def Let_def)
  show "tt_log (snd (qsearch E node alpha beta ply b st)) = tt_log st2 @
        [\<lparr>w_depth = 0,
          w_score = scoreToTT (cfg E) (fst (qsearch E node alpha beta ply b st)) ply,
          w_flag = (if fst (qsearch E node alpha beta ply b st) \<ge> beta then LOWERBOUND else UPPERBOUND),
          w_key = hashKey E b, w_move = q_bestMove L',
          w_stopped = (stopped st2 \<and> \<not> normalSearch st2)\<rparr>]"
    unfolding q using a ls l by (auto simp add: qsearch_exit_def Let_def storeEntry_def)
qed

lemmas qeval = qsearch.simps qsearch_entry_def qsearch_exit_def qsearch_prune_def delta_prune_def
  see_prune_def limitReached_def load_stopped_def getTime_def evaluation_def inCheck_of_def
  storeEntry_def scoreToTT_def scoreFromTT_def mated_in_def mate_in_def Let_def NO_MOVE_def

theorem qsearch_store_witness:
  "fst (qsearch sample_env NonPV (- 50) 50 0 0 sample_search) = 20 \<and>
   tt_log (snd (qsearch sample_env NonPV (- 50) 50 0 0 sample_search)) =
     [\<lparr>w_depth = 0, w_score = 20, w_flag = UPPERBOUND, w_key = 0, w_move = 0, w_stopped = False\<rparr>]"
proof -
  have e: "qsearch_entry sample_env NonPV (- 50) 50 0 0 sample_search =
     Inr ([92, 156], \<lparr>q_bestValue = 20, q_alpha = 20, q_bestMove = 0\<rparr>, sample_search\<lparr>checkTime := 2047\<rparr>)"
    by (simp add: qeval)
  have l: "qsearch_loop sample_env NonPV 50 0 0 [92, 156]
       \<lparr>q_bestValue = 20, q_alpha = 20, q_bestMove = 0\<rparr> (sample_search\<lparr>checkTime := 2047\<rparr>) =
     (\<lparr>q_bestValue = 20, q_alpha = 20, q_bestMove = 0\<rparr>, sample_search\<lparr>checkTime := 2045, nodes := 2\<rparr>)"
    by (simp add: qeval)
  have s: "\<not> fst (load_stopped (sample_search\<lparr>checkTime := 2045, nodes := 2\<rparr>))"
    by (simp add: load_stopped_def)
  show ?thesis
    using qsearch_store [of sample_env NonPV "- 50" 50 0 0 sample_search "[92, 156]"
        "\<lparr>q_bestValue = 20, q_alpha = 20, q_bestMove = 0\<rparr>" "sample_search\<lparr>checkTime := 2047\<rparr>"
        "\<lparr>q_bestValue = 20, q_alpha = 20, q_bestMove = 0\<rparr>"
        "sample_search\<lparr>checkTime := 2045, nodes := 2\<rparr>"] e l s
    by (simp add: scoreToTT_def)
qed

text \<open>
  C5, as the code has it. A move of the quiescence loop is skipped, without a node being
  counted or a search being made, when \<open>bestValue\<close> is above \<open>VALUE_TB_LOSS_IN_MAX_PLY\<close>, a
  piece stands on the destination square, the side to move is not in check, the move is
  not a promotion, the side to move has non-pawn material, and
  \<open>bestValue + 400 + piece_values[EG][captured] < alpha\<close>.
\<close>

theorem qsearch_delta_prune:
  assumes "move \<noteq> NO_MOVE"
    and "q_bestValue L > VALUE_TB_LOSS_IN_MAX_PLY (cfg E)"
    and "type_of_piece (cfg E) (pieceAtB E b (to_sq (cfg E) move)) \<noteq> NONETYPE (cfg E)"
    and "\<not> inCheck_of E b"
    and "\<not> promoted (cfg E) move"
    and "nonPawnMat E b (sideToMove E b)"
    and "q_bestValue L + 400
           + piece_values_EG (cfg E) (type_of_piece (cfg E) (pieceAtB E b (to_sq (cfg E) move)))
         < q_alpha L"
  shows "qsearch_loop E node beta ply b (move # rest) L st = qsearch_loop E node beta ply b rest L st"
  using assms by (simp add: qsearch_prune_def delta_prune_def Let_def)

theorem qsearch_delta_prune_witness:
  "qsearch_loop sample_env NonPV 2000 0 0 [92] \<lparr>q_bestValue = 20, q_alpha = 1000, q_bestMove = 0\<rparr>
     sample_search = (\<lparr>q_bestValue = 20, q_alpha = 1000, q_bestMove = 0\<rparr>, sample_search)"
  using qsearch_delta_prune [where move = 92 and E = sample_env and b = 0 and node = NonPV
      and L = "\<lparr>q_bestValue = 20, q_alpha = 1000, q_bestMove = 0\<rparr>" and beta = 2000 and ply = 0
      and rest = "[]" and st = sample_search]
  by (simp add: inCheck_of_def NO_MOVE_def)

text \<open>
  Without the guard on \<open>bestValue\<close> the statement fails. Where the network says
  \<open>-31800\<close>, at or below \<open>VALUE_TB_LOSS_IN_MAX_PLY\<close>, the capture 92 of the rook meets
  the four conditions of the delta pruning at the window \<open>(0, 1)\<close>, and is searched all
  the same: a node is counted and the child's score, 31800, is returned.
\<close>

theorem qsearch_delta_prune_counterexample:
  "delta_prune (sample_env\<lparr>nnue_scaled := \<lambda>b. - 31800\<rparr>) 0 (- 31800) 0 92 \<and>
   fst (qsearch (sample_env\<lparr>nnue_scaled := \<lambda>b. - 31800\<rparr>) NonPV 0 1 0 0 sample_search) = 31800 \<and>
   nodes (snd (qsearch (sample_env\<lparr>nnue_scaled := \<lambda>b. - 31800\<rparr>) NonPV 0 1 0 0 sample_search)) = 1"
  by (simp add: qeval)

section \<open>Alpha-beta search: what a call does to the state\<close>

lemma arel_refl: "arel ply st st"
  by (simp add: arel_def)

lemma arel_trans: "arel ply a b \<Longrightarrow> arel ply b c \<Longrightarrow> arel ply a c"
  by (auto simp add: arel_def)

lemma arel_up: "arel (ply + 1) a b \<Longrightarrow> arel ply a b"
  by (auto simp add: arel_def)

lemma arel_same:
  "normalSearch st' = normalSearch st \<Longrightarrow> (\<And>i. i < ply \<Longrightarrow> stack st' i = stack st i)
     \<Longrightarrow> history st' = history st \<Longrightarrow> tt_log st' = tt_log st \<Longrightarrow> useTB st' = useTB st
     \<Longrightarrow> arel ply st st'"
  by (simp add: arel_def history_bounded_def)

lemma qrel_arel: "qrel st st' \<Longrightarrow> arel ply st st'"
  by (auto simp add: qrel_def arel_def history_bounded_def list_all_iff qstore_def astore_def)

lemma limitReached_arel: "arel ply st (snd (limitReached st))"
  by (rule arel_same) (simp_all add: limitReached_same)

lemma absearch_head_arel:
  "absearch_head E node depth alpha beta ply b st = Inl (v, st') \<Longrightarrow> arel ply st st'"
  "absearch_head E node depth alpha beta ply b st = Inr (d, a, be, st') \<Longrightarrow>
     arel ply st st' \<and> \<not> (normalSearch st' \<and> stopped st')"
proof -
  obtain lim st1 where l: "limitReached st = (lim, st1)" by (cases "limitReached st")
  have q: "arel ply st st1" using limitReached_arel [of ply st] l by simp
  have q': "arel ply st (st1\<lparr>pvLength := x\<rparr>)" for x
    using q by (simp add: arel_def history_bounded_def)
  have n: "\<not> lim \<Longrightarrow> \<not> (normalSearch st1 \<and> stopped st1)"
    using limitReached_not_stopped [of st] limitReached_same(1) [of st] l by simp
  show "absearch_head E node depth alpha beta ply b st = Inl (v, st') \<Longrightarrow> arel ply st st'"
    using l q q'
    by (auto simp add: absearch_head_def Let_def split: if_splits prod.splits sum.splits)
  show "absearch_head E node depth alpha beta ply b st = Inr (d, a, be, st') \<Longrightarrow>
     arel ply st st' \<and> \<not> (normalSearch st' \<and> stopped st')"
    using l q' n
    by (auto simp add: absearch_head_def Let_def split: if_splits prod.splits sum.splits)
qed

lemma other_threads_same:
  "normalSearch (other_threads st) = normalSearch st"
  "stack (other_threads st) = stack st"
  "history (other_threads st) = history st"
  "tt_log (other_threads st) = tt_log st"
  "useTB (other_threads st) = useTB st"
  by (simp_all add: other_threads_def load_stopped_same)

lemma tb_step_arel:
  assumes "0 < depth"
  shows "tb_step E node ply b depth alpha beta st = Inl (v, st') \<Longrightarrow> arel ply st st'"
    and "tb_step E node ply b depth alpha beta st = Inr (bst, a, mx, st') \<Longrightarrow> arel ply st st'"
  using assms
  by (auto simp add: tb_step_def Let_def arel_def history_bounded_def storeEntry_def astore_def
      other_threads_same split: if_splits prod.splits)

lemma absearch_probe_arel:
  assumes "0 < depth"
  shows "absearch_probe E node ply b excluded depth alpha beta st = Inl (v, st') \<Longrightarrow> arel ply st st'"
    and "absearch_probe E node ply b excluded depth alpha beta st = Inr (L, st') \<Longrightarrow>
           arel ply st st' \<and> v_depth L = depth"
proof -
  define st1 where "st1 = st\<lparr>stack := (stack st)(ply + 1 := (stack st (ply + 1))\<lparr>excludedMove := NO_MOVE\<rparr>)\<rparr>"
  define st2 where "st2 = (if node \<noteq> NonPV \<and> ply > seldepth st1 then st1\<lparr>seldepth := ply\<rparr> else st1)"
  have a: "arel ply st st2"
    by (auto simp add: st1_def st2_def arel_def history_bounded_def)
  have t1: "arel ply st s'" if "tb_step E node ply b depth al be st2 = Inl (v', s')" for al be v' s'
    using arel_trans [OF a tb_step_arel(1) [OF assms that]] .
  have t2: "arel ply st (s'\<lparr>stack := (stack s')(ply := x)\<rparr>) \<and> arel ply st s'"
    if "tb_step E node ply b depth al be st2 = Inr (bs, al', mx, s')" for al be bs al' mx s' x
  proof -
    have "arel ply st s'" using arel_trans [OF a tb_step_arel(2) [OF assms that]] .
    then show ?thesis by (auto simp add: arel_def history_bounded_def)
  qed
  show "absearch_probe E node ply b excluded depth alpha beta st = Inl (v, st') \<Longrightarrow> arel ply st st'"
    unfolding absearch_probe_def Let_def st1_def [symmetric] st2_def [symmetric]
    using a t1
    by (auto split: prod.splits sum.splits if_splits)
  show "absearch_probe E node ply b excluded depth alpha beta st = Inr (L, st') \<Longrightarrow>
           arel ply st st' \<and> v_depth L = depth"
    unfolding absearch_probe_def Let_def st1_def [symmetric] st2_def [symmetric]
    using t2
    by (auto split: prod.splits sum.splits if_splits)
qed

lemma absearch_plan_depth:
  "absearch_plan E node b excluded prevmove L0 = (p, L) \<Longrightarrow> 0 < v_depth L0 \<Longrightarrow>
     p = Moves \<or> p = NullMove R \<Longrightarrow> 0 < v_depth L"
  by (auto simp add: absearch_plan_def Let_def split: if_splits)

lemma set_currentmove_arel: "arel ply st (set_currentmove ply m st)"
  by (simp add: set_currentmove_def arel_def history_bounded_def)

lemma set_excluded_arel: "arel ply st (set_excluded ply m st)"
  by (simp add: set_excluded_def arel_def history_bounded_def)

lemma print_currmove_arel: "arel ply st (print_currmove node move L st)"
proof -
  obtain s st1 where ls: "load_stopped st = (s, st1)" by (cases "load_stopped st")
  obtain ms st2 where g: "getTime st1 = (ms, st2)" by (cases "getTime st1")
  have "normalSearch st1 = normalSearch st" "stack st1 = stack st" "history st1 = history st"
    "tt_log st1 = tt_log st" "useTB st1 = useTB st"
    using load_stopped_same [of st] ls by simp_all
  moreover have "normalSearch st2 = normalSearch st1" "stack st2 = stack st1"
    "history st2 = history st1" "tt_log st2 = tt_log st1" "useTB st2 = useTB st1"
    using getTime_same [of st1] g by simp_all
  ultimately show ?thesis
    using ls g by (simp add: print_currmove_def arel_def history_bounded_def)
qed

lemma enter_move_arel: "arel ply st (enter_move node ply move L st)"
proof -
  have "arel ply (print_currmove node move L st)
          (set_currentmove ply move (print_currmove node move L st\<lparr>nodes := nodes (print_currmove node move L st) + 1\<rparr>))"
    by (simp add: set_currentmove_def arel_def history_bounded_def)
  then show ?thesis
    using arel_trans [OF print_currmove_arel] by (simp add: enter_move_def Let_def)
qed

lemma updateHistoryBonus_frame:
  "normalSearch (updateHistoryBonus E b m c st) = normalSearch st"
  "stack (updateHistoryBonus E b m c st) = stack st"
  "tt_log (updateHistoryBonus E b m c st) = tt_log st"
  "useTB (updateHistoryBonus E b m c st) = useTB st"
  by (simp_all add: updateHistoryBonus_def Let_def)

lemma updateHistory_loop_frame:
  "normalSearch (updateHistory_loop E b bm c ms st) = normalSearch st \<and>
   stack (updateHistory_loop E b bm c ms st) = stack st \<and>
   tt_log (updateHistory_loop E b bm c ms st) = tt_log st \<and>
   useTB (updateHistory_loop E b bm c ms st) = useTB st"
  by (induction ms arbitrary: st) (simp_all add: updateHistoryBonus_frame)

lemma updateAllHistories_arel:
  assumes "0 \<le> depth"
  shows "arel ply st (updateAllHistories E b bestMove best beta depth quiets quietCount p st)"
proof -
  have f: "normalSearch (updateAllHistories E b bestMove best beta depth quiets quietCount p st) = normalSearch st"
    "stack (updateAllHistories E b bestMove best beta depth quiets quietCount p st) = stack st"
    "tt_log (updateAllHistories E b bestMove best beta depth quiets quietCount p st) = tt_log st"
    "useTB (updateAllHistories E b bestMove best beta depth quiets quietCount p st) = useTB st"
    by (simp_all add: updateAllHistories_def updateHistory_def Let_def updateHistory_loop_frame
        updateHistoryBonus_frame)
  show ?thesis
    using f updateAllHistories_keeps_bound [OF assms, of st E b bestMove best beta quiets quietCount p]
    by (simp add: arel_def)
qed

lemma add_quiet_depth: "v_depth (add_quiet c m L) = v_depth L"
  by (simp add: add_quiet_def)

lemma record_score_arel:
  assumes "0 \<le> v_depth L" and "record_score E ply b move nc score L st = (stop, L', st')"
  shows "arel ply st st' \<and> v_depth L' = v_depth L"
proof -
  define st1 where "st1 = (if worker_id st = 0
                then st\<lparr>spentEffort := (spentEffort st)(from_sq (cfg E) move :=
                        (spentEffort st (from_sq (cfg E) move))(to_sq (cfg E) move :=
                           spentEffort st (from_sq (cfg E) move) (to_sq (cfg E) move) + (nodes st - nc)))\<rparr>
                else st)"
  have a: "arel ply st st1" by (simp add: st1_def arel_def history_bounded_def)
  have b: "arel ply st (update_pv ply move st1)"
    using a by (simp add: update_pv_def arel_def history_bounded_def)
  have c: "arel ply st (updateAllHistories E b move score be (v_depth L) q n ply (update_pv ply move st1))"
    for be q n
    using arel_trans [OF b updateAllHistories_arel [OF assms(1)]] .
  show ?thesis
    using assms(2) a b c unfolding record_score_def Let_def st1_def [symmetric]
    by (auto split: if_splits simp add: add_quiet_depth)
qed

lemma absearch_exit_arel: "arel ply st (snd (absearch_exit E node ply b excluded L st))"
proof (cases "normalSearch st")
  case True
  obtain s st1 where ls: "load_stopped st = (s, st1)" by (cases "load_stopped st")
  have l: "normalSearch st1 = normalSearch st" "stack st1 = stack st" "history st1 = history st"
    "tt_log st1 = tt_log st" "stopped st1 = s" "useTB st1 = useTB st"
    using load_stopped_same [of st] ls by simp_all
  show ?thesis using True ls l
    by (simp add: absearch_exit_def Let_def arel_def storeEntry_def astore_def history_bounded_def)
next
  case False
  then show ?thesis
    by (simp add: absearch_exit_def Let_def arel_def storeEntry_def astore_def history_bounded_def)
qed

lemma loop_state_simps [simp]:
  "loop_state (Inl (v, st)) = st" "loop_state (Inr (L, st)) = st"
  by (simp_all add: loop_state_def)

lemma absearch_arel:
  "arel ply st (snd (absearch E node depth alpha beta ply b st))"
  "0 \<le> v_depth L \<Longrightarrow> arel ply st (snd (absearch_moves E node ply b excluded L st))"
  "0 \<le> v_depth L \<Longrightarrow> arel ply st (loop_state (absearch_loop E node ply b excluded ms L st))"
  "0 \<le> v_depth L \<Longrightarrow>
     arel ply st (snd (snd (absearch_move E node ply b move newDepth L st))) \<and>
     v_depth (fst (snd (absearch_move E node ply b move newDepth L st))) = v_depth L"
  "arel ply st (snd (snd (absearch_lmr E node ply b' newDepth L st)))"
  "arel ply st (snd (absearch_full E doFull ply b' newDepth L score1 st))"
  "arel ply st (snd (absearch_pvs E node ply b' newDepth L score2 st))"
proof (induction E node depth alpha beta ply b st and E node ply b excluded L st
    and E node ply b excluded ms L st and E node ply b move newDepth L st
    and E node ply b' newDepth L st and E doFull ply b' newDepth L score1 st
    and E node ply b' newDepth L score2 st
    rule: absearch_absearch_moves_absearch_loop_absearch_move_absearch_lmr_absearch_full_absearch_pvs.induct)
  case (1 E node depth alpha beta ply b st)
  show ?case
  proof (cases "absearch_head E node depth alpha beta ply b st")
    case (Inl r)
    then show ?thesis
      using absearch_head_arel(1) [of E node depth alpha beta ply b st "fst r" "snd r"]
      by (simp add: absearch.simps)
  next
    case (Inr x)
    obtain d a be st1 where x: "x = (d, a, be, st1)" by (cases x)
    have hd: "absearch_head E node depth alpha beta ply b st = Inr (d, a, be, st1)"
      using Inr x by simp
    have h: "arel ply st st1"
      using absearch_head_arel(2) [OF hd] by simp
    show ?thesis
    proof (cases "d \<le> 0")
      case True
      have "arel ply st1 (snd (qsearch E node a be ply b st1))"
        by (rule qrel_arel [OF qsearch_qrel(1)])
      then show ?thesis using arel_trans [OF h] hd True by (simp add: absearch.simps)
    next
      case dpos: False
      then have d0: "0 < d" by simp
      show ?thesis
      proof (cases "absearch_probe E node ply b (excludedMove (stack st1 ply)) d a be st1")
        case (Inl r)
        then show ?thesis
          using absearch_probe_arel(1) [OF d0, of E node ply b "excludedMove (stack st1 ply)" a be st1
              "fst r" "snd r"] arel_trans [OF h] hd dpos
          by (simp add: absearch.simps)
      next
        case (Inr y)
        obtain L0 st2 where y: "y = (L0, st2)" by (cases y)
        have pr: "absearch_probe E node ply b (excludedMove (stack st1 ply)) d a be st1 = Inr (L0, st2)"
          using Inr y by simp
        have p: "arel ply st1 st2" "v_depth L0 = d"
          using absearch_probe_arel(2) [OF d0 pr] by simp_all
        have s2: "arel ply st st2" using arel_trans [OF h p(1)] .
        obtain pl L where pl: "absearch_plan E node b (excludedMove (stack st1 ply))
            (currentmove (stack st2 (ply - 1))) L0 = (pl, L)"
          by (cases "absearch_plan E node b (excludedMove (stack st1 ply))
            (currentmove (stack st2 (ply - 1))) L0")
        have eq: "absearch E node depth alpha beta ply b st =
            (case pl of
               Return v \<Rightarrow> (v, st2)
             | Quiesce n \<Rightarrow> qsearch E n (v_alpha L) (v_beta L) ply b st2
             | Moves \<Rightarrow> absearch_moves E node ply b (excludedMove (stack st1 ply)) L st2
             | NullMove R \<Rightarrow>
                 (case absearch E NonPV (v_depth L - R) (- v_beta L) (- v_beta L + 1) (ply + 1)
                         (makeNullMove E b) (set_currentmove ply (NULL_MOVE (cfg E)) st2) of
                    (s, st3) \<Rightarrow>
                      if - s \<ge> v_beta L
                      then (if - s \<ge> VALUE_TB_WIN_IN_MAX_PLY (cfg E) then v_beta L else - s, st3)
                      else absearch_moves E node ply b (excludedMove (stack st1 ply)) L st3))"
          using hd dpos pr pl by (simp add: absearch.simps)
        show ?thesis
        proof (cases pl)
          case (Return v)
          then show ?thesis using eq s2 by simp
        next
          case (Quiesce n)
          have "arel ply st2 (snd (qsearch E n (v_alpha L) (v_beta L) ply b st2))"
            by (rule qrel_arel [OF qsearch_qrel(1)])
          then show ?thesis using eq Quiesce arel_trans [OF s2] by simp
        next
          case Moves
          have dl: "0 \<le> v_depth L"
            using absearch_plan_depth [OF pl, of undefined] p(2) dpos Moves by simp
          have "arel ply st2 (snd (absearch_moves E node ply b (excludedMove (stack st1 ply)) L st2))"
            using "1.IH"(3) [OF hd refl refl refl dpos pr refl pl [symmetric] Moves dl] .
          then show ?thesis using eq Moves arel_trans [OF s2] by simp
        next
          case (NullMove R)
          have dl: "0 \<le> v_depth L"
            using absearch_plan_depth [OF pl, of R] p(2) dpos NullMove by simp
          obtain s st3 where n: "absearch E NonPV (v_depth L - R) (- v_beta L) (- v_beta L + 1) (ply + 1)
                         (makeNullMove E b) (set_currentmove ply (NULL_MOVE (cfg E)) st2) = (s, st3)"
            by (cases "absearch E NonPV (v_depth L - R) (- v_beta L) (- v_beta L + 1) (ply + 1)
                         (makeNullMove E b) (set_currentmove ply (NULL_MOVE (cfg E)) st2)")
          have "arel (ply + 1) (set_currentmove ply (NULL_MOVE (cfg E)) st2) st3"
            using "1.IH"(1) [OF hd refl refl refl dpos pr refl pl [symmetric] NullMove] n by simp
          then have s3: "arel ply st st3"
            using arel_trans [OF arel_trans [OF s2 set_currentmove_arel] arel_up] by blast
          show ?thesis
          proof (cases "- s \<ge> v_beta L")
            case True
            then show ?thesis using eq NullMove n s3 by simp
          next
            case False
            have "arel ply st3 (snd (absearch_moves E node ply b (excludedMove (stack st1 ply)) L st3))"
              using "1.IH"(2) [OF hd refl refl refl dpos pr refl pl [symmetric] NullMove n [symmetric]
                  False dl] .
            then show ?thesis using eq NullMove n False arel_trans [OF s3] by simp
          qed
        qed
      qed
    qed
  qed
next
  case (2 E node ply b excluded L st)
  obtain r where r: "absearch_loop E node ply b excluded
      (absearch_picker E b st ply (node = Root) (v_ttMove L) (v_ttHit L)) L st = r" by simp
  have a: "arel ply st (loop_state r)" using "2.IH" [OF "2.prems"] r by simp
  show ?case
  proof (cases r)
    case (Inl x)
    then show ?thesis using a r by (simp add: absearch_moves.simps loop_state_def)
  next
    case (Inr x)
    obtain L' st' where x: "x = (L', st')" by (cases x)
    show ?thesis
      using a r Inr x arel_trans [OF _ absearch_exit_arel, of ply st st']
      by (simp add: absearch_moves.simps)
  qed
next
  case (3 E node ply b excluded L st)
  show ?case by (simp add: absearch_loop.simps arel_refl)
next
  case (4 E node ply b excluded move rest L st)
  define L1 where "L1 = L\<lparr>v_madeMoves := v_madeMoves L + 1\<rparr>"
  have d1: "0 \<le> v_depth L1" using "4.prems" by (simp add: L1_def)
  show ?case
  proof (cases "move = NO_MOVE")
    case True
    then show ?thesis by (simp add: absearch_loop.simps arel_refl)
  next
    case nm: False
    show ?thesis
    proof (cases "move = excluded")
      case True
      then show ?thesis using "4.IH"(1) [OF nm True "4.prems"] nm by (simp add: absearch_loop.simps)
    next
      case ne: False
      show ?thesis
      proof (cases "prune_move E node b L1 move")
        case True
        then show ?thesis
          using "4.IH"(2) [OF nm ne True [unfolded L1_def] d1 [unfolded L1_def]] nm ne
          by (simp add: absearch_loop.simps L1_def)
      next
        case np: False
        obtain sv st1 where sg: "(if singular_cond E node excluded move L1
               then (case absearch E NonPV ((v_depth L - 1) sdiv 2) (singularBeta L - 1)
                            (singularBeta L) ply b (set_excluded ply move st) of
                       (value, st') \<Rightarrow> (Some value, set_excluded ply NO_MOVE st'))
               else (None, st)) = (sv, st1)"
          by (cases "(if singular_cond E node excluded move L1
               then (case absearch E NonPV ((v_depth L - 1) sdiv 2) (singularBeta L - 1)
                            (singularBeta L) ply b (set_excluded ply move st) of
                       (value, st') \<Rightarrow> (Some value, set_excluded ply NO_MOVE st'))
               else (None, st))")
        have s1: "arel ply st st1"
        proof (cases "singular_cond E node excluded move L1")
          case True
          obtain v st' where c: "absearch E NonPV ((v_depth L - 1) sdiv 2) (singularBeta L - 1)
                            (singularBeta L) ply b (set_excluded ply move st) = (v, st')"
            by (cases "absearch E NonPV ((v_depth L - 1) sdiv 2) (singularBeta L - 1)
                            (singularBeta L) ply b (set_excluded ply move st)")
          have "arel ply (set_excluded ply move st) st'"
            using "4.IH"(3) [OF nm ne np [unfolded L1_def] True [unfolded L1_def]] c by simp
          then have "arel ply st (set_excluded ply NO_MOVE st')"
            using arel_trans [OF arel_trans [OF set_excluded_arel] set_excluded_arel] by blast
          then show ?thesis using sg True c by simp
        next
          case False
          then show ?thesis using sg by (simp add: arel_refl)
        qed
        show ?thesis
        proof (cases "(case sv of Some value \<Rightarrow> \<not> value < singularBeta L \<and> singularBeta L \<ge> v_beta L
                 | None \<Rightarrow> False)")
          case True
          then show ?thesis
            using nm ne np sg s1 by (simp add: absearch_loop.simps L1_def [symmetric])
        next
          case nc: False
          obtain stop L' st' where mv: "absearch_move E node ply b move (newDepth_of L sv) L1 st1
              = (stop, L', st')"
            by (cases "absearch_move E node ply b move (newDepth_of L sv) L1 st1") auto
          have m: "arel ply st1 st'" "v_depth L' = v_depth L1"
            using "4.IH"(4) [OF nm ne np [unfolded L1_def] sg [symmetric, unfolded L1_def] nc
                d1 [unfolded L1_def]] mv
            by (simp_all add: L1_def)
          have s': "arel ply st st'" using arel_trans [OF s1 m(1)] .
          show ?thesis
          proof (cases stop)
            case True
            then show ?thesis
              using nm ne np sg nc mv s' by (simp add: absearch_loop.simps L1_def [symmetric])
          next
            case False
            have "arel ply st' (loop_state (absearch_loop E node ply b excluded rest L' st'))"
              using "4.IH"(5) [OF nm ne np [unfolded L1_def] sg [symmetric, unfolded L1_def] nc
                  mv [symmetric, unfolded L1_def] refl False] m(2) d1
              by simp
            then show ?thesis
              using nm ne np sg nc mv False arel_trans [OF s']
              by (simp add: absearch_loop.simps L1_def [symmetric])
          qed
        qed
      qed
    qed
  qed
next
  case (5 E node ply b move newDepth L st)
  define st0 where "st0 = enter_move node ply move L st"
  obtain score1 doFull st2 where l: "absearch_lmr E node ply (makeMove E b move) newDepth L st0
      = (score1, doFull, st2)"
    by (cases "absearch_lmr E node ply (makeMove E b move) newDepth L st0") auto
  obtain score2 st3 where f: "absearch_full E doFull ply (makeMove E b move) newDepth L score1 st2
      = (score2, st3)"
    by (cases "absearch_full E doFull ply (makeMove E b move) newDepth L score1 st2")
  obtain score3 st4 where pv: "absearch_pvs E node ply (makeMove E b move) newDepth L score2 st3
      = (score3, st4)"
    by (cases "absearch_pvs E node ply (makeMove E b move) newDepth L score2 st3")
  obtain stop L' st' where rs: "record_score E ply b move (nodes st0) score3
      (L\<lparr>v_doFullSearch := doFull\<rparr>) st4 = (stop, L', st')"
    by (cases "record_score E ply b move (nodes st0) score3 (L\<lparr>v_doFullSearch := doFull\<rparr>) st4") auto
  have a0: "arel ply st st0" unfolding st0_def by (rule enter_move_arel)
  have a1: "arel ply st0 st2" using "5.IH"(1) l by (simp add: st0_def)
  have a2: "arel ply st2 st3"
    using "5.IH"(2) [OF l [symmetric, unfolded st0_def] refl] f by simp
  have a3: "arel ply st3 st4"
    using "5.IH"(3) [OF l [symmetric, unfolded st0_def] refl f [symmetric]] pv by simp
  have a4: "arel ply st4 st' \<and> v_depth L' = v_depth L"
    using record_score_arel [OF _ rs] "5.prems" by simp
  have "arel ply st st'"
    using arel_trans [OF arel_trans [OF arel_trans [OF arel_trans [OF a0 a1] a2] a3]] a4 by blast
  then show ?case
    using a4 l f pv rs by (simp add: absearch_move.simps st0_def [symmetric])
next
  case (6 E node ply b' newDepth L st)
  show ?case
  proof (cases "lmr_applies node L")
    case True
    then show ?thesis
      using arel_up [OF "6.IH" [OF True]]
      by (auto simp add: absearch_lmr.simps split: prod.splits)
  next
    case False
    then show ?thesis by (simp add: absearch_lmr.simps arel_refl)
  qed
next
  case (7 E doFull ply b' newDepth L score1 st)
  show ?case
  proof (cases doFull)
    case True
    then show ?thesis
      using arel_up [OF "7.IH" [OF True]]
      by (auto simp add: absearch_full.simps split: prod.splits)
  next
    case False
    then show ?thesis by (simp add: absearch_full.simps arel_refl)
  qed
next
  case (8 E node ply b' newDepth L score2 st)
  show ?case
  proof (cases "node \<noteq> NonPV \<and> ((score2 > v_alpha L \<and> score2 < v_beta L) \<or> v_madeMoves L = 1)")
    case True
    then show ?thesis
      using arel_up [OF "8.IH" [OF True]]
      by (auto simp add: absearch_pvs.simps split: prod.splits)
  next
    case False
    then show ?thesis by (auto simp add: absearch_pvs.simps arel_refl)
  qed
qed

text \<open>
  In particular a whole search keeps the history bounded: the move loop runs at a depth
  of at least 1, so every call of \<open>updateAllHistories\<close> is made with a bonus between 0
  and 2000.
\<close>

lemma absearch_history_bounded:
  "history_bounded st \<Longrightarrow> history_bounded (snd (absearch E node depth alpha beta ply b st))"
  using absearch_arel(1) [of ply st E node depth alpha beta b] by (simp add: arel_def)

lemmas aeval = absearch.simps absearch_moves.simps absearch_loop.simps absearch_move.simps
  absearch_lmr.simps absearch_full.simps absearch_pvs.simps
  absearch_head_def absearch_probe_def absearch_plan_def absearch_exit_def tt_cutoff_def tb_step_def
  improving_of_def prune_move_def singular_cond_def singularBeta_def set_excluded_def
  set_currentmove_def print_currmove_def lmr_applies_def lmr_rdepth_def add_quiet_def update_pv_def
  record_score_def newDepth_of_def enter_move_def probeTB_def updateAllHistories_def
  updateHistory_def updateHistoryBonus_def getHistory_def bonus_def other_threads_def

section \<open>Table writes and the stop flag\<close>

text \<open>
  A normal search whose stop flag is raised by another thread just before the root
  stores: the child's entry is in the table, the root's is not.
\<close>

lemma absearch_stop_example:
  "tt_log (snd (absearch sample_env Root 1 (- 32001) 32001 0 0
      (sample_search\<lparr>stop_oracle := [False, False, False, False, False, False, False, False, True]\<rparr>))) =
     [\<lparr>w_depth = 0, w_score = 20, w_flag = UPPERBOUND, w_key = 1, w_move = 0, w_stopped = False\<rparr>]"
  by (simp add: aeval qeval)




section \<open>The frames below the root and the improving flag\<close>

lemma tb_step_stack:
  "tb_step E node ply b depth alpha beta st = Inr (bst, a, mx, st') \<Longrightarrow> stack st' = stack st"
  by (auto simp add: tb_step_def Let_def other_threads_same split: if_splits prod.splits)

lemma absearch_probe_improving:
  assumes "absearch_probe E node ply b excluded depth alpha beta st = Inr (L, st')"
  shows "v_improving L = (\<not> inCheck_of E b \<and> eval (stack st (ply - 2)) \<noteq> VALUE_NONE (cfg E)
                           \<and> v_staticEval L > eval (stack st (ply - 2)))"
    and "v_inCheck L = inCheck_of E b" and "v_madeMoves L = 0"
  using assms
  unfolding absearch_probe_def Let_def improving_of_def
  by (auto split: prod.splits sum.splits if_splits dest!: tb_step_stack)

text \<open>
  C4, as the code has it. \<open>iterativeDeepening\<close> initialises the frames
  \<open>-2 .. MAX_PLY + 1\<close> to no move, evaluation 0 and no excluded move. In \<open>absearch\<close>
  the flag \<open>improving\<close> is \<open>staticEval > eval[ply - 2]\<close> when the side to move is not in
  check and \<open>eval[ply - 2]\<close> is not \<open>VALUE_NONE\<close>, and false otherwise. The evaluation 0
  of an initial frame is not \<open>VALUE_NONE\<close>, so where the frame read is still the
  initial one, \<open>improving\<close> is \<open>staticEval > 0\<close> (outside check). A call at \<open>ply\<close> leaves
  every frame below \<open>ply\<close> as it found it, so the frames \<open>-1\<close> and \<open>-2\<close> keep their
  initial values through a search from ply 0.
\<close>

theorem improving_from_frames:
  "(- 2 \<le> i \<and> i \<le> MAX_PLY K + 1 \<longrightarrow>
      stack (iterativeDeepening_init K st0) i =
        \<lparr>currentmove = NO_MOVE, eval = 0, excludedMove = NO_MOVE\<rparr>) \<and>
   (absearch_probe E node ply b excluded depth alpha beta st = Inr (L, st') \<longrightarrow>
      v_improving L = (\<not> inCheck_of E b \<and> eval (stack st (ply - 2)) \<noteq> VALUE_NONE (cfg E)
                        \<and> v_staticEval L > eval (stack st (ply - 2)))) \<and>
   (absearch_probe E node ply b excluded depth alpha beta st = Inr (L, st') \<and>
    eval (stack st (ply - 2)) = 0 \<and> VALUE_NONE (cfg E) \<noteq> 0 \<longrightarrow>
      v_improving L = (\<not> inCheck_of E b \<and> v_staticEval L > 0)) \<and>
   (j < ply \<longrightarrow> stack (snd (absearch E node depth alpha beta ply b st)) j = stack st j)"
proof (intro conjI impI)
  assume "- 2 \<le> i \<and> i \<le> MAX_PLY K + 1"
  then show "stack (iterativeDeepening_init K st0) i =
        \<lparr>currentmove = NO_MOVE, eval = 0, excludedMove = NO_MOVE\<rparr>"
    by (simp add: iterativeDeepening_init_def)
next
  assume "absearch_probe E node ply b excluded depth alpha beta st = Inr (L, st')"
  then show "v_improving L = (\<not> inCheck_of E b \<and> eval (stack st (ply - 2)) \<noteq> VALUE_NONE (cfg E)
                        \<and> v_staticEval L > eval (stack st (ply - 2)))"
    by (rule absearch_probe_improving(1))
next
  assume "absearch_probe E node ply b excluded depth alpha beta st = Inr (L, st') \<and>
    eval (stack st (ply - 2)) = 0 \<and> VALUE_NONE (cfg E) \<noteq> 0"
  then show "v_improving L = (\<not> inCheck_of E b \<and> v_staticEval L > 0)"
    using absearch_probe_improving(1) [of E node ply b excluded depth alpha beta st L st'] by auto
next
  assume "j < ply"
  then show "stack (snd (absearch E node depth alpha beta ply b st)) j = stack st j"
    using absearch_arel(1) [of ply st E node depth alpha beta b] by (simp add: arel_def)
qed

theorem improving_from_frames_witness:
  "stack (iterativeDeepening_init sample_config sample_search) (- 1) =
     \<lparr>currentmove = NO_MOVE, eval = 0, excludedMove = NO_MOVE\<rparr> \<and>
   (\<exists>L st'. absearch_probe sample_env PV 1 1 NO_MOVE 1 (- 50) 50
              (iterativeDeepening_init sample_config sample_search) = Inr (L, st') \<and>
            v_improving L = (v_staticEval L > 0)) \<and>
   stack (snd (absearch sample_env PV 1 (- 50) 50 1 1
                 (iterativeDeepening_init sample_config sample_search))) (- 1) =
     \<lparr>currentmove = NO_MOVE, eval = 0, excludedMove = NO_MOVE\<rparr>"
proof -
  have "\<exists>L st'. absearch_probe sample_env PV 1 1 NO_MOVE 1 (- 50) 50
              (iterativeDeepening_init sample_config sample_search) = Inr (L, st')"
    by (simp add: aeval qeval iterativeDeepening_init_def)
  then obtain L st' where p: "absearch_probe sample_env PV 1 1 NO_MOVE 1 (- 50) 50
              (iterativeDeepening_init sample_config sample_search) = Inr (L, st')"
    by blast
  have c: "\<not> inCheck_of sample_env 1" by (simp add: inCheck_of_def)
  have z: "eval (stack (iterativeDeepening_init sample_config sample_search) (1 - 2)) = 0"
    by (simp add: iterativeDeepening_init_def)
  have "stack (iterativeDeepening_init sample_config sample_search) (- 1) =
     \<lparr>currentmove = NO_MOVE, eval = 0, excludedMove = NO_MOVE\<rparr> \<and>
     v_improving L = (v_staticEval L > 0) \<and>
     stack (snd (absearch sample_env PV 1 (- 50) 50 1 1
                 (iterativeDeepening_init sample_config sample_search))) (- 1) =
     stack (iterativeDeepening_init sample_config sample_search) (- 1)"
    using improving_from_frames [of "- 1" sample_config sample_search sample_env PV 1 1 NO_MOVE 1
        "- 50" 50 "iterativeDeepening_init sample_config sample_search" L st' "- 1"] p c z
    by simp
  then show ?thesis using p by auto
qed

text \<open>
  C4 as stated fails: right after the initialisation, at ply 0 and at ply 1, the static
  evaluation is 20 and \<open>improving\<close> is true.
\<close>

theorem improving_counterexample:
  "(case absearch_probe sample_env Root 0 0 NO_MOVE 1 (- 32001) 32001
          (iterativeDeepening_init sample_config sample_search) of
      Inl r \<Rightarrow> False | Inr (L, st') \<Rightarrow> v_improving L) \<and>
   (case absearch_probe sample_env PV 1 1 NO_MOVE 1 (- 32001) 32001
          (iterativeDeepening_init sample_config sample_search) of
      Inl r \<Rightarrow> False | Inr (L, st') \<Rightarrow> v_improving L)"
  by (simp add: aeval qeval iterativeDeepening_init_def)

section \<open>A node without a move to try\<close>








section \<open>The aspiration loop follows the rules and ends\<close>

lemma sdiv2_pos: "0 < (d::int) \<Longrightarrow> 0 \<le> d sdiv 2"
  by (simp add: signed_divide_int_def sgn_if)

text \<open>More searches allowed change nothing once a run has ended.\<close>

lemma aspiration_spec_mono:
  "aspiration_spec K root n alpha0 beta0 delta st = Some x \<Longrightarrow> n \<le> m \<Longrightarrow>
     aspiration_spec K root m alpha0 beta0 delta st = Some x"
proof (induction n arbitrary: m alpha0 beta0 delta st)
  case 0
  then show ?case by simp
next
  case (Suc n)
  obtain m' where m: "m = Suc m'" "n \<le> m'" using Suc.prems(2) by (cases m) auto
  show ?case
    using Suc.prems(1) Suc.IH [of _ _ _ _ m'] m(2) unfolding m(1)
    by (auto split: prod.splits if_splits)
qed

lemma root_results_in_range_all:
  "aspiration_spec K root n alpha0 beta0 delta st = Some x \<Longrightarrow>
   root_results_in_range K root n alpha0 beta0 delta st \<Longrightarrow>
     root_results_in_range K root m alpha0 beta0 delta st"
proof (induction n arbitrary: m alpha0 beta0 delta st)
  case 0
  then show ?case by simp
next
  case (Suc n)
  show ?case
  proof (cases m)
    case 0
    then show ?thesis by simp
  next
    case (Suc m')
    show ?thesis
      using Suc.prems Suc.IH [of _ _ _ _ m'] unfolding Suc
      by (auto split: prod.splits if_splits)
  qed
qed

lemma aspiration_spec_aborted:
  "aspiration_spec K root n alpha0 beta0 delta st = Some (True, r, st') \<Longrightarrow> r = 0"
  by (induction n arbitrary: alpha0 beta0 delta st) (auto split: prod.splits if_splits)

text \<open>A run that is not cut short ends with a result strictly inside the window searched.\<close>

lemma aspiration_spec_inside:
  "aspiration_spec K root n alpha0 beta0 delta st = Some (False, r, st') \<Longrightarrow>
     \<exists>a be s. a < r \<and> r < be \<and> fst (root a be s) = r"
proof (induction n arbitrary: alpha0 beta0 delta st)
  case 0
  then show ?case by simp
next
  case (Suc n)
  obtain alpha beta where w: "slacken K (alpha0, beta0) = (alpha, beta)"
    by (cases "slacken K (alpha0, beta0)")
  obtain result st1 where rt: "root alpha beta st = (result, st1)" by (cases "root alpha beta st")
  obtain s st2 where l: "load_stopped st1 = (s, st2)" by (cases "load_stopped st1")
  show ?case
  proof (cases "alpha < result \<and> result < beta")
    case True
    then have "r = result" using Suc.prems w rt l by (auto split: if_splits)
    then have "alpha < r \<and> r < beta \<and> fst (root alpha beta st) = r" using True rt by simp
    then show ?thesis by blast
  next
    case False
    then show ?thesis
      using Suc.prems Suc.IH w rt l by (auto split: if_splits prod.splits)
  qed
qed

text \<open>
  The loop of the code does what the rules say. Its clamp of a new bound to infinity
  makes no difference: a bound it clamps is past 3500 and is slackened to infinity at
  the start of the next round in either case.
\<close>

lemma aspiration_loop_spec:
  assumes "3500 < VALUE_INFINITE K"
  shows "aspiration_spec K root n alpha0 beta0 delta st = Some x \<Longrightarrow>
         slacken K (a0, b0) = slacken K (alpha0, beta0) \<Longrightarrow>
           aspiration_loop K root a0 b0 delta st = Some x"
proof (induction n arbitrary: alpha0 beta0 a0 b0 delta st)
  case 0
  then show ?case by simp
next
  case (Suc n)
  obtain alpha beta where w: "slacken K (alpha0, beta0) = (alpha, beta)"
    by (cases "slacken K (alpha0, beta0)")
  have w': "(if a0 < - 3500 then - VALUE_INFINITE K else a0) = alpha"
    "(if b0 > 3500 then VALUE_INFINITE K else b0) = beta"
    using Suc.prems(2) w by (simp_all add: slacken_def)
  obtain result st1 where r: "root alpha beta st = (result, st1)" by (cases "root alpha beta st")
  obtain s st2 where l: "load_stopped st1 = (s, st2)" by (cases "load_stopped st1")
  have eq: "aspiration_loop K root a0 b0 delta st =
      (if s then Some (True, 0, st2)
       else if worker_id st2 = 0 \<and> l_nodes (limit st2) \<noteq> 0 \<and> nodes st2 \<ge> l_nodes (limit st2)
       then Some (True, 0, st2)
       else if result \<le> alpha then
         aspiration_loop K root (max (alpha - delta) (- VALUE_INFINITE K)) ((alpha + beta) sdiv 2)
           (delta + delta sdiv 2) st2
       else if result \<ge> beta then
         aspiration_loop K root alpha (min (beta + delta) (VALUE_INFINITE K)) (delta + delta sdiv 2) st2
       else Some (False, result, st2))"
    by (subst aspiration_loop.simps) (simp only: Let_def w' r l prod.case)
  have sp: "aspiration_spec K root (Suc n) alpha0 beta0 delta st =
      (if s \<or> (worker_id st2 = 0 \<and> l_nodes (limit st2) \<noteq> 0 \<and> nodes st2 \<ge> l_nodes (limit st2))
       then Some (True, 0, st2)
       else if alpha < result \<and> result < beta then Some (False, result, st2)
       else if result \<le> alpha
       then aspiration_spec K root n (alpha - delta) ((alpha + beta) sdiv 2) (delta + delta sdiv 2) st2
       else aspiration_spec K root n alpha (beta + delta) (delta + delta sdiv 2) st2)"
    by (simp add: w r l fail_low_def fail_high_def)
  have low: "slacken K (max (alpha - delta) (- VALUE_INFINITE K), (alpha + beta) sdiv 2) =
      slacken K (alpha - delta, (alpha + beta) sdiv 2)"
    using assms by (auto simp add: slacken_def)
  have high: "slacken K (alpha, min (beta + delta) (VALUE_INFINITE K)) =
      slacken K (alpha, beta + delta)"
    using assms by (auto simp add: slacken_def)
  show ?case
    using Suc.prems(1) Suc.IH [OF _ low] Suc.IH [OF _ high] unfolding eq sp
    by (auto split: if_splits)
qed

text \<open>
  The retries end. A fail-low needs \<open>alpha \<ge> -3500\<close> and lowers \<open>alpha\<close> by \<open>delta > 0\<close>; a
  fail-high needs \<open>beta \<le> 3500\<close>, keeps \<open>alpha\<close> and raises \<open>beta\<close> by \<open>delta\<close>; a bound
  past 3500 is replaced by infinity, which no result in range reaches.
\<close>

lemma aspiration_spec_returns:
  assumes big: "3500 < VALUE_INFINITE K"
  shows "0 < delta \<Longrightarrow> \<forall>n. root_results_in_range K root n alpha0 beta0 delta st \<Longrightarrow>
           \<exists>n x. aspiration_spec K root n alpha0 beta0 delta st = Some x"
proof (induction "asp_rank (alpha0, beta0)" arbitrary: alpha0 beta0 delta st
    rule: wf_induct_rule [OF wf_lex_prod [OF wf_less_than wf_less_than]])
  case 1
  define alpha where "alpha = (if alpha0 < - 3500 then - VALUE_INFINITE K else alpha0)"
  define beta where "beta = (if 3500 < beta0 then VALUE_INFINITE K else beta0)"
  have w: "slacken K (alpha0, beta0) = (alpha, beta)" by (simp add: slacken_def alpha_def beta_def)
  obtain result st1 where r: "root alpha beta st = (result, st1)" by (cases "root alpha beta st")
  obtain s st2 where l: "load_stopped st1 = (s, st2)" by (cases "load_stopped st1")
  define ab where "ab = (s \<or> (worker_id st2 = 0 \<and> l_nodes (limit st2) \<noteq> 0
                              \<and> nodes st2 \<ge> l_nodes (limit st2)))"
  have sp: "aspiration_spec K root (Suc n) alpha0 beta0 delta st =
      (if ab then Some (True, 0, st2)
       else if alpha < result \<and> result < beta then Some (False, result, st2)
       else if result \<le> alpha
       then aspiration_spec K root n (alpha - delta) ((alpha + beta) sdiv 2) (delta + delta sdiv 2) st2
       else aspiration_spec K root n alpha (beta + delta) (delta + delta sdiv 2) st2)" for n
    by (simp add: w r l fail_low_def fail_high_def ab_def)
  have rr: "root_results_in_range K root (Suc n) alpha0 beta0 delta st =
      (if ab then True
       else - VALUE_INFINITE K < result \<and> result < VALUE_INFINITE K \<and>
         (if alpha < result \<and> result < beta then True
          else if result \<le> alpha
          then root_results_in_range K root n (alpha - delta) ((alpha + beta) sdiv 2)
                 (delta + delta sdiv 2) st2
          else root_results_in_range K root n alpha (beta + delta) (delta + delta sdiv 2) st2))" for n
    by (simp add: w r l fail_low_def fail_high_def ab_def)
  have d': "0 < delta + delta sdiv 2" using 1(2) sdiv2_pos [of delta] by simp
  show ?case
  proof (cases "ab \<or> (alpha < result \<and> result < beta)")
    case True
    then have "\<exists>x. aspiration_spec K root (Suc 0) alpha0 beta0 delta st = Some x"
      unfolding sp by auto
    then show ?thesis by blast
  next
    case False
    have rng: "- VALUE_INFINITE K < result" "result < VALUE_INFINITE K"
      using 1(3) [rule_format, of "Suc 0"] False unfolding rr by auto
    show ?thesis
    proof (cases "result \<le> alpha")
      case low: True
      have a0: "\<not> alpha0 < - 3500" "alpha = alpha0"
        using low rng by (auto simp add: alpha_def split: if_splits)
      have dec: "(asp_rank (alpha - delta, (alpha + beta) sdiv 2), asp_rank (alpha0, beta0))
           \<in> less_than <*lex*> less_than"
        using a0 1(2) by (auto simp add: asp_rank_def)
      have nxt: "\<forall>n. root_results_in_range K root n (alpha - delta) ((alpha + beta) sdiv 2)
                 (delta + delta sdiv 2) st2"
      proof
        fix n
        show "root_results_in_range K root n (alpha - delta) ((alpha + beta) sdiv 2)
                 (delta + delta sdiv 2) st2"
          using 1(3) [rule_format, of "Suc n"] False low unfolding rr by auto
      qed
      obtain n x where "aspiration_spec K root n (alpha - delta) ((alpha + beta) sdiv 2)
                 (delta + delta sdiv 2) st2 = Some x"
        using 1(1) [OF dec d' nxt] by blast
      then have "aspiration_spec K root (Suc n) alpha0 beta0 delta st = Some x"
        unfolding sp using False low by auto
      then show ?thesis by blast
    next
      case nlow: False
      then have hi: "result \<ge> beta" using False by auto
      have b0: "\<not> 3500 < beta0" "beta = beta0"
        using hi rng by (auto simp add: beta_def split: if_splits)
      have dec: "(asp_rank (alpha, beta + delta), asp_rank (alpha0, beta0))
           \<in> less_than <*lex*> less_than"
        using b0 1(2) big by (auto simp add: asp_rank_def alpha_def)
      have nxt: "\<forall>n. root_results_in_range K root n alpha (beta + delta) (delta + delta sdiv 2) st2"
      proof
        fix n
        show "root_results_in_range K root n alpha (beta + delta) (delta + delta sdiv 2) st2"
          using 1(3) [rule_format, of "Suc n"] False nlow unfolding rr by auto
      qed
      obtain n x where "aspiration_spec K root n alpha (beta + delta) (delta + delta sdiv 2) st2
          = Some x"
        using 1(1) [OF dec d' nxt] by blast
      then have "aspiration_spec K root (Suc n) alpha0 beta0 delta st = Some x"
        unfolding sp using False nlow by auto
      then show ?thesis by blast
    qed
  qed
qed

text \<open>
  C7. \<open>aspirationSearch\<close> returns, for every depth, previous evaluation and state, and
  what its loop does is what the rules say: a bound exceeding \<open>\<plusminus>3500\<close> is slackened to
  infinity, a fail-low sets \<open>beta = (alpha+beta)/2\<close>, \<open>alpha = alpha - delta\<close>,
  \<open>delta += delta/2\<close>, a fail-high sets \<open>beta += delta\<close>, \<open>delta += delta/2\<close>, and the
  root is searched again until a result lies strictly inside the window (or the search
  is stopped, and the score is 0): the loop returns what \<open>aspiration_spec\<close> returns
  after finitely many searches, and a score that is not that of a stopped search is the
  result of a search of the root with a window strictly around it. It is given that each search of the root the loop makes
  returns a score strictly between \<open>-VALUE_INFINITE\<close> and \<open>VALUE_INFINITE\<close>, and that
  \<open>VALUE_INFINITE\<close> is above 3500.
\<close>

theorem aspirationSearch_returns:
  assumes "3500 < VALUE_INFINITE (cfg E)"
    and "alphai = (if depth \<ge> 9 then prevEval - 30 else - VALUE_INFINITE (cfg E))"
    and "betai = (if depth \<ge> 9 then prevEval + 30 else VALUE_INFINITE (cfg E))"
    and "\<forall>n. root_results_in_range (cfg E) (\<lambda>a be s. absearch E Root depth a be 0 b s) n alphai betai 30 st"
  shows "\<exists>n aborted result sa.
           aspiration_spec (cfg E) (\<lambda>a be s. absearch E Root depth a be 0 b s) n alphai betai 30 st
             = Some (aborted, result, sa) \<and>
           aspiration_loop (cfg E) (\<lambda>a be s. absearch E Root depth a be 0 b s) alphai betai 30 st
             = Some (aborted, result, sa) \<and>
           (\<exists>sb. aspirationSearch E b depth prevEval st = Some (result, sb)) \<and>
           (\<not> aborted \<longrightarrow>
              (\<exists>a be s. a < result \<and> result < be
                         \<and> fst (absearch E Root depth a be 0 b s) = result))"
proof -
  obtain n x where sp: "aspiration_spec (cfg E) (\<lambda>a be s. absearch E Root depth a be 0 b s) n alphai betai 30 st = Some x"
    using aspiration_spec_returns [OF assms(1) _ assms(4)] by auto
  obtain aborted result sa where x: "x = (aborted, result, sa)" by (cases x)
  have lp: "aspiration_loop (cfg E) (\<lambda>a be s. absearch E Root depth a be 0 b s) alphai betai 30 st
      = Some (aborted, result, sa)"
    using aspiration_loop_spec [OF assms(1) sp refl] x by simp
  have z: "aborted \<Longrightarrow> result = 0"
    using aspiration_spec_aborted [of "cfg E" _ n alphai betai 30 st result sa] sp x by simp
  have "\<exists>sb. aspirationSearch E b depth prevEval st = Some (result, sb)"
    using lp z unfolding aspirationSearch_def Let_def assms(2) [symmetric] assms(3) [symmetric]
    by (cases "getTime sa") auto
  moreover have "\<not> aborted \<longrightarrow>
      (\<exists>a be s. a < result \<and> result < be \<and> fst (absearch E Root depth a be 0 b s) = result)"
    using aspiration_spec_inside [of "cfg E" "\<lambda>a be s. absearch E Root depth a be 0 b s" n alphai betai 30 st
        result sa] sp x
    by simp
  ultimately show ?thesis using sp lp x by blast
qed

text \<open>
  On the sample tree at depth 9 every search of the root says 0. From the previous
  evaluation 100 the window is \<open>(70, 130)\<close>; the search fails low twice (the windows are
  then \<open>(40, 100)\<close> and \<open>(-5, 70)\<close>) and the third search is inside the window.
\<close>

theorem aspirationSearch_returns_witness:
  "aspiration_spec sample_config (\<lambda>a be s. absearch sample_env Root 9 a be 0 0 s) (Suc (Suc 0)) 70 130 30 sample_search = None \<and>
   (\<exists>sb. aspirationSearch sample_env 0 9 100 sample_search = Some (0, sb))"
proof -
  have e2: "aspiration_spec sample_config (\<lambda>a be s. absearch sample_env Root 9 a be 0 0 s) (Suc (Suc 0)) 70 130 30 sample_search = None"
    by (simp add: aeval qeval slacken_def fail_low_def fail_high_def signed_divide_int_def)
  have e3: "\<exists>S. aspiration_spec sample_config (\<lambda>a be s. absearch sample_env Root 9 a be 0 0 s) (Suc (Suc (Suc 0))) 70 130 30
      sample_search = Some (False, 0, S)"
    by (simp add: aeval qeval slacken_def fail_low_def fail_high_def signed_divide_int_def)
  then obtain S where s3: "aspiration_spec sample_config (\<lambda>a be s. absearch sample_env Root 9 a be 0 0 s) (Suc (Suc (Suc 0))) 70 130 30
      sample_search = Some (False, 0, S)"
    by blast
  have r3: "root_results_in_range sample_config (\<lambda>a be s. absearch sample_env Root 9 a be 0 0 s) (Suc (Suc (Suc 0))) 70 130 30
      sample_search"
    by (simp add: aeval qeval slacken_def fail_low_def fail_high_def signed_divide_int_def)
  have rng: "\<forall>n. root_results_in_range sample_config (\<lambda>a be s. absearch sample_env Root 9 a be 0 0 s) n 70 130 30 sample_search"
    using root_results_in_range_all [OF s3 r3] by blast
  have "\<exists>n aborted result sa.
      aspiration_spec sample_config (\<lambda>a be s. absearch sample_env Root 9 a be 0 0 s) n 70 130 30 sample_search
        = Some (aborted, result, sa) \<and>
      aspiration_loop sample_config (\<lambda>a be s. absearch sample_env Root 9 a be 0 0 s) 70 130 30 sample_search
        = Some (aborted, result, sa) \<and>
      (\<exists>sb. aspirationSearch sample_env 0 9 100 sample_search = Some (result, sb)) \<and>
      (\<not> aborted \<longrightarrow>
         (\<exists>a be s. a < result \<and> result < be
                    \<and> fst (absearch sample_env Root 9 a be 0 0 s) = result))"
    using aspirationSearch_returns [where E = sample_env and depth = 9 and prevEval = 100
        and alphai = 70 and betai = 130 and b = 0 and st = sample_search] rng
    by simp
  then obtain n aborted result sa where t:
    "aspiration_spec sample_config (\<lambda>a be s. absearch sample_env Root 9 a be 0 0 s) n 70 130 30 sample_search
       = Some (aborted, result, sa)"
    "\<exists>sb. aspirationSearch sample_env 0 9 100 sample_search = Some (result, sb)"
    by blast
  have "aspiration_spec sample_config (\<lambda>a be s. absearch sample_env Root 9 a be 0 0 s) (max n (Suc (Suc (Suc 0)))) 70 130 30
      sample_search = Some (aborted, result, sa)"
    using aspiration_spec_mono [OF t(1)] by simp
  moreover have "aspiration_spec sample_config (\<lambda>a be s. absearch sample_env Root 9 a be 0 0 s) (max n (Suc (Suc (Suc 0)))) 70 130 30
      sample_search = Some (False, 0, S)"
    using aspiration_spec_mono [OF s3] by simp
  ultimately have "result = 0" by simp
  then show ?thesis using e2 t(2) by simp
qed

end
